theory Spec2Isabelle
  imports Main "HOL-Library.AList"
begin

section \<open>Values, owners and the addon's heap\<close>

text \<open>
  The model follows the run-task and debounce-task modules of ember-lifeline
  (\<^verbatim>\<open>src/addon/run-task.ts\<close>). Every function takes the state and returns its
  result with the state it leaves; a result is an error (\<open>Inl\<close>) where the source
  throws. What lies outside the two modules is part of the state and is kept abstract:
  \<^item> the run loop (\<^verbatim>\<open>later\<close>, \<^verbatim>\<open>schedule\<close>, \<^verbatim>\<open>throttle\<close>, \<^verbatim>\<open>debounce\<close>, \<^verbatim>\<open>cancel\<close>)
    is a list of outstanding jobs under their handles, with the names of its queues;
    time is not modelled, the firing of a handle is an event that may happen at any
    moment;
  \<^item> the body of a user function is opaque: an invocation is recorded in a trace with
    the function, its \<^verbatim>\<open>this\<close> and its arguments;
  \<^item> \<^verbatim>\<open>assert\<close> throws, as in a debug build.

  JavaScript objects are compared by identity, so an owner, a timer handle, a user
  function and a \<^verbatim>\<open>Set\<close>/\<^verbatim>\<open>Map\<close> created by the addon are each a number
  standing for the object's identity.
\<close>

type_synonym owner = nat
type_synonym timer = nat
type_synonym fn = nat
type_synonym ref = nat

text \<open>
  Arguments are dynamically typed in the source (\<^verbatim>\<open>typeof x === 'string'\<close>,
  \<^verbatim>\<open>Number.isInteger(x)\<close>), so they are values with a tag. \<open>VInt\<close> is a Number
  whose value is an integer, \<open>VNonInteger\<close> any other Number (a fraction, NaN, an
  infinity).
\<close>

datatype val =
    VUndefined
  | VBool bool
  | VInt int
  | VNonInteger
  | VStr string
  | VFun fn
  | VObj owner

text \<open>An owner (\<^verbatim>\<open>IDestroyable\<close>): its flag and its properties, \<^verbatim>\<open>obj[name]\<close>.\<close>

record destroyable =
  isDestroyed :: bool
  props :: "string \<Rightarrow> val"

text \<open>
  What is thrown. The source throws plain errors that differ by their message; they are
  named here after the spec's taxonomy:
  \<^item> \<open>DestroyedOwnerError\<close>: the assertions \<^verbatim>\<open>!obj.isDestroyed\<close> of the entry points
    and of \<^verbatim>\<open>registerDisposable\<close>;
  \<^item> \<open>InvalidTaskError\<close>: the failure of \<^verbatim>\<open>getTask\<close>, and the assertions on the
    task name of \<^verbatim>\<open>throttleTask\<close> and \<^verbatim>\<open>debounceTask\<close>;
  \<^item> \<open>InvalidQueueError\<close>: the assertion \<^verbatim>\<open>typeof queueName === 'string'\<close> of
    \<^verbatim>\<open>scheduleTask\<close>, and the run loop's refusal of a queue it does not have;
  \<^item> \<open>ReservedQueueError\<close>: the assertion \<^verbatim>\<open>queueName !== 'afterRender'\<close>;
  \<^item> \<open>InvalidDelayError\<close>: the assertion \<^verbatim>\<open>Number.isInteger(wait)\<close>;
  \<^item> \<open>TypeError\<close>: JavaScript's own error on calling what is not a function.
\<close>

datatype error =
    DestroyedOwnerError
  | InvalidTaskError
  | InvalidQueueError
  | ReservedQueueError
  | InvalidDelayError
  | TypeError

text \<open>
  The closures the addon hands to the run loop, with the variables each captures:
  \<^item> \<open>RunTaskCallback timers cancelId task obj\<close> is
    \<^verbatim>\<open>() => { timers.delete(cancelId); task.call(obj); }\<close> of \<^verbatim>\<open>runTask\<close>;
  \<^item> \<open>TaskWrapper timers cancelId task obj\<close> is
    \<^verbatim>\<open>(...taskArgs) => { timers.delete(cancelId); task.call(obj, ...taskArgs); }\<close>
    of \<^verbatim>\<open>scheduleTask\<close>;
  \<^item> \<open>DebouncedTask i pendingDebounces name obj\<close> is
    \<^verbatim>\<open>(...args) => { pendingDebounces.delete(name); obj[name](...args); }\<close> of
    \<^verbatim>\<open>debounceTask\<close>; \<open>i\<close> is the identity of the function object, new at
    every evaluation of the arrow expression.
\<close>

datatype callback =
    RunTaskCallback ref timer fn owner
  | TaskWrapper ref timer fn owner
  | DebouncedTask nat ref string owner

record pendingDebounce =
  debouncedTask :: callback
  cancelId :: timer

text \<open>
  The functions returned by \<^verbatim>\<open>getTimersDisposable(obj, timers)\<close> and
  \<^verbatim>\<open>getDebouncesDisposable(debounces)\<close>, with what they capture.
\<close>

datatype disposable =
    TimersDisposable owner ref
  | DebouncesDisposable ref

text \<open>
  What the run loop (\<^verbatim>\<open>@ember/runloop\<close>, outside the repository) holds for one
  outstanding timer handle: a \<^verbatim>\<open>later\<close> callback with its delay, a callback in a
  named queue with its target and arguments, a throttle window on a target and its
  resolved method, or a pending debounce of a method on a target with its arguments.
\<close>

datatype job =
    Later callback val
  | Scheduled string owner callback "val list"
  | Throttler owner fn
  | Debouncer owner callback "val list"

text \<open>
  The state: the owners, the two module-level registries (\<^verbatim>\<open>registeredTimers\<close>,
  \<^verbatim>\<open>registeredDebounces\<close>) that map an owner to its \<^verbatim>\<open>Set\<close> or \<^verbatim>\<open>Map\<close>, the
  store of those sets and maps (a \<^verbatim>\<open>Set\<close> as the list of its elements in insertion
  order, a \<^verbatim>\<open>Map\<close> as an association list in insertion order), the disposables
  registered per owner, the run loop's outstanding jobs and the names of its queues, and
  the trace of the user functions invoked so far: (function, \<^verbatim>\<open>this\<close>, arguments). The
  body of a user function is opaque: its invocation is recorded and changes nothing else.
\<close>

record state =
  objs :: "owner \<Rightarrow> destroyable"
  registeredTimers :: "owner \<rightharpoonup> ref"
  registeredDebounces :: "owner \<rightharpoonup> ref"
  timerSets :: "ref \<Rightarrow> timer list"
  debounceMaps :: "ref \<Rightarrow> (string \<times> pendingDebounce) list"
  nextRef :: ref
  nextFn :: nat
  disposables :: "owner \<Rightarrow> disposable list"
  pending :: "(timer \<times> job) list"
  nextTimer :: timer
  queues :: "string list"
  calls :: "(fn \<times> owner \<times> val list) list"

section \<open>Checks on values\<close>

text \<open>
  \<^verbatim>\<open>typeof v === 'function'\<close> and \<^verbatim>\<open>Number.isInteger(v)\<close>. The check
  \<^verbatim>\<open>typeof v === 'string'\<close> is a case distinction on \<open>VStr\<close> in the functions below.
\<close>

definition typeof_function :: "val \<Rightarrow> bool" where
  "typeof_function v = (case v of VFun _ \<Rightarrow> True | _ \<Rightarrow> False)"

definition Number_isInteger :: "val \<Rightarrow> bool" where
  "Number_isInteger v = (case v of VInt _ \<Rightarrow> True | _ \<Rightarrow> False)"

text \<open>\<^verbatim>\<open>args[args.length - 1]\<close>: \<^verbatim>\<open>undefined\<close> on an empty array.\<close>

definition last_arg :: "val list \<Rightarrow> val" where
  "last_arg args = (if args = [] then VUndefined else last args)"

text \<open>
  Modelled from the spec: \<^verbatim>\<open>getTask\<close> lives in \<^verbatim>\<open>utils/get-task\<close>, which is not
  among the sources. The spec: a task is a callable, or a name that must resolve to a
  callable property of the owner, else the call fails with \<open>InvalidTaskError\<close>.
\<close>

definition getTask :: "destroyable \<Rightarrow> val \<Rightarrow> error + fn" where
  "getTask obj taskOrName =
     (case taskOrName of
        VFun f \<Rightarrow> Inr f
      | VStr n \<Rightarrow> (case props obj n of VFun f \<Rightarrow> Inr f | _ \<Rightarrow> Inl InvalidTaskError)
      | _ \<Rightarrow> Inl InvalidTaskError)"

section \<open>Sets, maps and the trace\<close>

definition timers_add :: "ref \<Rightarrow> timer \<Rightarrow> state \<Rightarrow> state" where
  "timers_add r t s =
     s\<lparr>timerSets := (timerSets s)
          (r := (if t \<in> set (timerSets s r) then timerSets s r else timerSets s r @ [t]))\<rparr>"

definition timers_delete :: "ref \<Rightarrow> timer \<Rightarrow> state \<Rightarrow> state" where
  "timers_delete r t s = s\<lparr>timerSets := (timerSets s)(r := removeAll t (timerSets s r))\<rparr>"

definition timers_clear :: "ref \<Rightarrow> state \<Rightarrow> state" where
  "timers_clear r s = s\<lparr>timerSets := (timerSets s)(r := [])\<rparr>"

definition debounces_set :: "ref \<Rightarrow> string \<Rightarrow> pendingDebounce \<Rightarrow> state \<Rightarrow> state" where
  "debounces_set r name p s =
     s\<lparr>debounceMaps := (debounceMaps s)(r := AList.update name p (debounceMaps s r))\<rparr>"

definition debounces_delete :: "ref \<Rightarrow> string \<Rightarrow> state \<Rightarrow> state" where
  "debounces_delete r name s =
     s\<lparr>debounceMaps := (debounceMaps s)(r := AList.delete name (debounceMaps s r))\<rparr>"

text \<open>\<^verbatim>\<open>f.call(this, ...args)\<close> of a user function.\<close>

definition call :: "fn \<Rightarrow> owner \<Rightarrow> val list \<Rightarrow> state \<Rightarrow> state" where
  "call f this args s = s\<lparr>calls := calls s @ [(f, this, args)]\<rparr>"

section \<open>Statements in sequence\<close>

text \<open>
  A throw ends the function that is running: of two statements in sequence, the second
  runs only when the first has returned, in the state the first has left; an error is
  passed on with the state at the throw. \<open>forEach\<close> is a loop over the elements of a
  collection: an iteration that throws ends the loop.
\<close>

definition and_then ::
  "(error + 'a) \<times> state \<Rightarrow> ('a \<Rightarrow> state \<Rightarrow> (error + 'b) \<times> state) \<Rightarrow> (error + 'b) \<times> state" where
  "and_then m f = (case m of (Inl e, s) \<Rightarrow> (Inl e, s) | (Inr a, s) \<Rightarrow> f a s)"

fun forEach ::
  "('a \<Rightarrow> state \<Rightarrow> (error + unit) \<times> state) \<Rightarrow> 'a list \<Rightarrow> state \<Rightarrow> (error + unit) \<times> state" where
  "forEach f [] s = (Inr (), s)"
| "forEach f (x # xs) s =
     (case f x s of (Inl e, s') \<Rightarrow> (Inl e, s') | (Inr _, s') \<Rightarrow> forEach f xs s')"

section \<open>The run loop\<close>

text \<open>
  Modelled from the spec: the primitive scheduler is \<^verbatim>\<open>@ember/runloop\<close>, outside the
  repository; the spec gives its interface (\<open>scheduleAfterDelay\<close>, \<open>scheduleInQueue\<close>,
  \<open>throttle\<close>, \<open>debounce\<close>, \<open>cancel\<close>, each scheduling call returning a timer
  identifier) and its policies: a throttle runs the first call of a burst at once and
  suppresses the others, a debounce keeps one pending invocation per (target, method)
  with the arguments of the latest call. Where the spec is silent or says otherwise, the
  model follows the run loop of the Ember version the package is built against
  (\<^verbatim>\<open>ember-source ~3.6.0\<close> in \<^verbatim>\<open>package.json\<close>):
  \<^item> \<^verbatim>\<open>schedule\<close> throws when the run loop has no queue of the given name, and
    schedules nothing;
  \<^item> \<^verbatim>\<open>debounce\<close> on a (target, method) that has a pending debounce re-arms that
    debounce with the new arguments and returns its identifier again; it issues a new
    identifier only when none is pending.

  Handles come from a counter: \<open>add_job\<close> stores a job under the next handle. The
  closure of \<^verbatim>\<open>runTask\<close> and \<^verbatim>\<open>scheduleTask\<close> reads the variable \<^verbatim>\<open>cancelId\<close>,
  which holds the handle once the scheduling call has returned, so the closure is given
  as a function of the handle.
\<close>

definition add_job :: "job \<Rightarrow> state \<Rightarrow> state" where
  "add_job j s = s\<lparr>pending := pending s @ [(nextTimer s, j)], nextTimer := Suc (nextTimer s)\<rparr>"

definition later :: "(timer \<Rightarrow> callback) \<Rightarrow> val \<Rightarrow> state \<Rightarrow> timer \<times> state" where
  "later mk timeout s = (let t = nextTimer s in (t, add_job (Later (mk t) timeout) s))"

definition schedule ::
  "string \<Rightarrow> owner \<Rightarrow> (timer \<Rightarrow> callback) \<Rightarrow> val list \<Rightarrow> state \<Rightarrow> (error + timer) \<times> state"
  where
  "schedule queueName target mk args s =
     (if queueName \<in> set (queues s)
      then (let t = nextTimer s
            in (Inr t, add_job (Scheduled queueName target (mk t) args) s))
      else (Inl InvalidQueueError, s))"

text \<open>
  \<^verbatim>\<open>throttle(target, methodName, ...args, wait)\<close>: the method is \<^verbatim>\<open>target[methodName]\<close>
  at the call; inside an open window of the same target and method the call is
  suppressed and the window's handle returned; otherwise the method runs at once with
  the arguments before the wait and a window opens.
\<close>

definition throttle :: "owner \<Rightarrow> string \<Rightarrow> val list \<Rightarrow> state \<Rightarrow> (error + timer) \<times> state" where
  "throttle target method throttleArgs s =
     (case props (objs s target) method of
        VFun f \<Rightarrow>
          (case find (\<lambda>(t, j). j = Throttler target f) (pending s) of
             Some (t, _) \<Rightarrow> (Inr t, s)
           | None \<Rightarrow>
               (let t = nextTimer s
                in (Inr t, call f target (butlast throttleArgs) (add_job (Throttler target f) s))))
      | _ \<Rightarrow> (Inl TypeError, s))"

definition is_debouncer_of :: "owner \<Rightarrow> callback \<Rightarrow> job \<Rightarrow> bool" where
  "is_debouncer_of target method j =
     (case j of Debouncer tg m _ \<Rightarrow> tg = target \<and> m = method | _ \<Rightarrow> False)"

text \<open>
  \<^verbatim>\<open>debounce(target, method, ...args, wait)\<close>: when a debounce of the same target and
  method is pending, the pending job gets the new arguments (and a new deadline) and
  keeps its handle, which is returned; otherwise a job is added under a new handle.
\<close>

definition debounce :: "owner \<Rightarrow> callback \<Rightarrow> val list \<Rightarrow> state \<Rightarrow> timer \<times> state" where
  "debounce target method debounceArgs s =
     (case find (\<lambda>(t, j). is_debouncer_of target method j) (pending s) of
        Some (t, _) \<Rightarrow>
          (t, s\<lparr>pending :=
                 map (\<lambda>(t', j). if t' = t
                        then (t', Debouncer target method (butlast debounceArgs)) else (t', j))
                   (pending s)\<rparr>)
      | None \<Rightarrow>
          (let t = nextTimer s
           in (t, add_job (Debouncer target method (butlast debounceArgs)) s)))"

definition cancel :: "timer \<Rightarrow> state \<Rightarrow> state" where
  "cancel t s = s\<lparr>pending := filter (\<lambda>(t', _). t' \<noteq> t) (pending s)\<rparr>"

section \<open>Registration of disposables\<close>

text \<open>
  Modelled from the spec: \<^verbatim>\<open>registerDisposable\<close> and \<^verbatim>\<open>runDisposables\<close> live in
  \<^verbatim>\<open>utils/disposable\<close>, which is not among the sources. The spec: the host offers
  "register a cleanup callback for this owner", and runs the owner's callbacks when the
  owner is destroyed; work attempted on a destroyed owner fails loudly. Like the entry
  points, \<^verbatim>\<open>registerDisposable\<close> asserts that the owner is not destroyed: on a
  destroyed owner it throws and registers nothing.
\<close>

definition registerDisposable ::
  "owner \<Rightarrow> disposable \<Rightarrow> state \<Rightarrow> (error + unit) \<times> state" where
  "registerDisposable obj dispose s =
     (if isDestroyed (objs s obj) then (Inl DestroyedOwnerError, s)
      else (Inr (), s\<lparr>disposables := (disposables s)(obj := disposables s obj @ [dispose])\<rparr>))"

section \<open>The run-task module\<close>

text \<open>
  \<^verbatim>\<open>_setRegisteredTimers(mapForTesting)\<close>, for tests only: it replaces the registry. The
  sets captured by closures made before the call are then no longer the registry's.
\<close>

definition setRegisteredTimers :: "(owner \<rightharpoonup> ref) \<Rightarrow> state \<Rightarrow> state" where
  "setRegisteredTimers mapForTesting s = s\<lparr>registeredTimers := mapForTesting\<rparr>"

text \<open>
  \<^verbatim>\<open>getTimers(obj)\<close>: the owner's set, made and registered on first use. The set is in
  the registry before \<^verbatim>\<open>registerDisposable\<close> is called, so it stays there when that
  call throws.
\<close>

definition getTimers :: "owner \<Rightarrow> state \<Rightarrow> (error + ref) \<times> state" where
  "getTimers obj s =
     (case registeredTimers s obj of
        Some timers \<Rightarrow> (Inr timers, s)
      | None \<Rightarrow>
          (let timers = nextRef s;
               s1 = s\<lparr>timerSets := (timerSets s)(timers := []), nextRef := Suc timers\<rparr>;
               s2 = s1\<lparr>registeredTimers := (registeredTimers s1)(obj \<mapsto> timers)\<rparr>
           in and_then (registerDisposable obj (TimersDisposable obj timers) s2)
                (\<lambda>_ s3. (Inr timers, s3))))"

text \<open>
  \<^verbatim>\<open>assert(msg, cond)\<close> of \<^verbatim>\<open>@ember/debug\<close> throws when \<open>cond\<close> is false (a debug
  build, as the tests run it). Each assertion is a branch that returns its error with
  the state as it is at the throw.
\<close>

definition runTask :: "owner \<Rightarrow> val \<Rightarrow> val \<Rightarrow> state \<Rightarrow> (error + timer) \<times> state" where
  "runTask obj taskOrName timeout s =
     (if isDestroyed (objs s obj) then (Inl DestroyedOwnerError, s)
      else
        (case getTask (objs s obj) taskOrName of
           Inl e \<Rightarrow> (Inl e, s)
         | Inr task \<Rightarrow>
             and_then (getTimers obj s)
               (\<lambda>timers s1.
                  (let (t, s2) = later (\<lambda>t. RunTaskCallback timers t task obj)
                                   (if timeout = VUndefined then VInt 0 else timeout) s1
                   in (Inr t, timers_add timers t s2)))))"

definition scheduleTask ::
  "owner \<Rightarrow> val \<Rightarrow> val \<Rightarrow> val list \<Rightarrow> state \<Rightarrow> (error + timer) \<times> state" where
  "scheduleTask obj queueName taskOrName args s =
     (case queueName of
        VStr q \<Rightarrow>
          (if q = ''afterRender'' then (Inl ReservedQueueError, s)
           else if isDestroyed (objs s obj) then (Inl DestroyedOwnerError, s)
           else
             (case getTask (objs s obj) taskOrName of
                Inl e \<Rightarrow> (Inl e, s)
              | Inr task \<Rightarrow>
                  and_then (getTimers obj s)
                    (\<lambda>timers s1.
                       and_then (schedule q obj (\<lambda>t. TaskWrapper timers t task obj) args s1)
                         (\<lambda>t s2. (Inr t, timers_add timers t s2)))))
      | _ \<Rightarrow> (Inl InvalidQueueError, s))"

definition throttleTask ::
  "owner \<Rightarrow> val \<Rightarrow> val list \<Rightarrow> state \<Rightarrow> (error + timer) \<times> state" where
  "throttleTask obj taskName throttleArgs s =
     (case taskName of
        VStr name \<Rightarrow>
          (if \<not> typeof_function (props (objs s obj) name) then (Inl InvalidTaskError, s)
           else if isDestroyed (objs s obj) then (Inl DestroyedOwnerError, s)
           else if \<not> Number_isInteger (last_arg throttleArgs) then (Inl InvalidDelayError, s)
           else
             and_then (getTimers obj s)
               (\<lambda>timers s1.
                  and_then (throttle obj name throttleArgs s1)
                    (\<lambda>t s2. (Inr t, timers_add timers t s2))))
      | _ \<Rightarrow> (Inl InvalidTaskError, s))"

text \<open>
  The two overloads of \<^verbatim>\<open>cancelTask\<close>: the deprecated \<^verbatim>\<open>cancelTask(cancelId)\<close>, where
  the second parameter is \<^verbatim>\<open>undefined\<close>, and \<^verbatim>\<open>cancelTask(obj, cancelId)\<close>.
\<close>

datatype cancelTask_args =
    Legacy timer
  | WithObj owner timer

definition cancelTask :: "cancelTask_args \<Rightarrow> state \<Rightarrow> (error + unit) \<times> state" where
  "cancelTask a s =
     (case a of
        Legacy t \<Rightarrow> (Inr (), cancel t s)
      | WithObj obj t \<Rightarrow>
          and_then (getTimers obj s)
            (\<lambda>timers s1. (Inr (), cancel t (timers_delete timers t s1))))"

text \<open>
  The function returned by \<^verbatim>\<open>getTimersDisposable(obj, timers)\<close>. \<^verbatim>\<open>Set.forEach\<close>
  visits the elements in insertion order; the callback deletes at most the element
  being visited, so the elements visited are those of the set when the loop starts.
\<close>

definition getTimersDisposable :: "owner \<Rightarrow> ref \<Rightarrow> state \<Rightarrow> (error + unit) \<times> state" where
  "getTimersDisposable obj timers s =
     and_then (forEach (\<lambda>cancelId. cancelTask (WithObj obj cancelId)) (timerSets s timers) s)
       (\<lambda>_ s'. (Inr (), timers_clear timers s'))"

section \<open>The debounce-task module\<close>

text \<open>
  The first statements of \<^verbatim>\<open>debounceTask\<close> after its assertions: the owner's map, made
  and registered on first use, as \<^verbatim>\<open>getTimers\<close> does for the set.
\<close>

definition getDebounces :: "owner \<Rightarrow> state \<Rightarrow> (error + ref) \<times> state" where
  "getDebounces obj s =
     (case registeredDebounces s obj of
        Some pendingDebounces \<Rightarrow> (Inr pendingDebounces, s)
      | None \<Rightarrow>
          (let pendingDebounces = nextRef s;
               s1 = s\<lparr>debounceMaps := (debounceMaps s)(pendingDebounces := []),
                      nextRef := Suc pendingDebounces\<rparr>;
               s2 = s1\<lparr>registeredDebounces := (registeredDebounces s1)(obj \<mapsto> pendingDebounces)\<rparr>
           in and_then (registerDisposable obj (DebouncesDisposable pendingDebounces) s2)
                (\<lambda>_ s3. (Inr pendingDebounces, s3))))"

definition debounceTask ::
  "owner \<Rightarrow> val \<Rightarrow> val list \<Rightarrow> state \<Rightarrow> (error + unit) \<times> state" where
  "debounceTask obj nm debounceArgs s =
     (case nm of
        VStr name \<Rightarrow>
          (if \<not> typeof_function (props (objs s obj) name) then (Inl InvalidTaskError, s)
           else if isDestroyed (objs s obj) then (Inl DestroyedOwnerError, s)
           else if \<not> Number_isInteger (last_arg debounceArgs) then (Inl InvalidDelayError, s)
           else
             and_then (getDebounces obj s)
               (\<lambda>pendingDebounces s1.
                  (let (task, s2) =
                         (case map_of (debounceMaps s1 pendingDebounces) name of
                            None \<Rightarrow> (DebouncedTask (nextFn s1) pendingDebounces name obj,
                                     s1\<lparr>nextFn := Suc (nextFn s1)\<rparr>)
                          | Some p \<Rightarrow> (debouncedTask p, s1));
                       (cancelId, s3) = debounce obj task debounceArgs s2
                   in (Inr (),
                       debounces_set pendingDebounces name
                         \<lparr>debouncedTask = task, cancelId = cancelId\<rparr> s3))))
      | _ \<Rightarrow> (Inl InvalidTaskError, s))"

definition cancelDebounce :: "owner \<Rightarrow> string \<Rightarrow> state \<Rightarrow> (error + unit) \<times> state" where
  "cancelDebounce obj name s =
     (case registeredDebounces s obj of
        None \<Rightarrow> (Inr (), s)
      | Some pendingDebounces \<Rightarrow>
          (case map_of (debounceMaps s pendingDebounces) name of
             None \<Rightarrow> (Inr (), s)
           | Some p \<Rightarrow> (Inr (), cancel (cancelId p) (debounces_delete pendingDebounces name s))))"

definition getDebouncesDisposable :: "ref \<Rightarrow> state \<Rightarrow> state" where
  "getDebouncesDisposable debounces s =
     (if debounceMaps s debounces = [] then s
      else fold (\<lambda>(_, p). cancel (cancelId p)) (debounceMaps s debounces) s)"

section \<open>Firing and destruction\<close>

text \<open>The bodies of the closures, run by the run loop with the arguments it kept.\<close>

fun run_callback :: "callback \<Rightarrow> val list \<Rightarrow> state \<Rightarrow> (error + unit) \<times> state" where
  "run_callback (RunTaskCallback timers t task obj) args s =
     (Inr (), call task obj [] (timers_delete timers t s))"
| "run_callback (TaskWrapper timers t task obj) taskArgs s =
     (Inr (), call task obj taskArgs (timers_delete timers t s))"
| "run_callback (DebouncedTask i pendingDebounces name obj) args s =
     (let s1 = debounces_delete pendingDebounces name s
      in (case props (objs s1 obj) name of
            VFun f \<Rightarrow> (Inr (), call f obj args s1)
          | _ \<Rightarrow> (Inl TypeError, s1)))"

text \<open>
  The run loop fires the job of handle \<open>t\<close>: the job leaves the run loop, then its
  callback runs. The end of a throttle window runs nothing. A handle with no job fires
  nothing.
\<close>

definition fire :: "timer \<Rightarrow> state \<Rightarrow> (error + unit) \<times> state" where
  "fire t s =
     (case map_of (pending s) t of
        None \<Rightarrow> (Inr (), s)
      | Some j \<Rightarrow>
          (let s1 = cancel t s
           in (case j of
                 Later cb _ \<Rightarrow> run_callback cb [] s1
               | Scheduled _ _ cb args \<Rightarrow> run_callback cb args s1
               | Throttler _ _ \<Rightarrow> (Inr (), s1)
               | Debouncer _ cb args \<Rightarrow> run_callback cb args s1)))"

fun run_disposable :: "disposable \<Rightarrow> state \<Rightarrow> (error + unit) \<times> state" where
  "run_disposable (TimersDisposable obj timers) s = getTimersDisposable obj timers s"
| "run_disposable (DebouncesDisposable debounces) s =
     (Inr (), getDebouncesDisposable debounces s)"

text \<open>
  Modelled from the spec: the owner's destruction hook runs its registered disposables,
  in order, once; a disposable that throws ends the hook.
\<close>

definition runDisposables :: "owner \<Rightarrow> state \<Rightarrow> (error + unit) \<times> state" where
  "runDisposables obj s =
     forEach run_disposable (disposables s obj) (s\<lparr>disposables := (disposables s)(obj := [])\<rparr>)"

text \<open>The timers the registry tracks for an owner: none when it has no entry.\<close>

definition tracked :: "state \<Rightarrow> owner \<Rightarrow> timer list" where
  "tracked s obj = (case registeredTimers s obj of None \<Rightarrow> [] | Some r \<Rightarrow> timerSets s r)"

definition pendingDebouncesOf :: "state \<Rightarrow> owner \<Rightarrow> (string \<times> pendingDebounce) list" where
  "pendingDebouncesOf s obj =
     (case registeredDebounces s obj of None \<Rightarrow> [] | Some r \<Rightarrow> debounceMaps s r)"

section \<open>Runs of the system\<close>

text \<open>
  What can happen to the state: a call of an entry point of the addon, the run loop
  firing a handle, the host running an owner's destruction hook, and the program
  assigning a property of an owner or its \<^verbatim>\<open>isDestroyed\<close> flag. The test-only
  \<^verbatim>\<open>_setRegisteredTimers\<close> is not an event of a run.
\<close>

datatype event =
    RunTask owner val val
  | ScheduleTask owner val val "val list"
  | ThrottleTask owner val "val list"
  | DebounceTask owner val "val list"
  | CancelTask cancelTask_args
  | CancelDebounce owner string
  | Fire timer
  | RunDisposables owner
  | SetProp owner string val
  | SetDestroyed owner bool

definition set_prop :: "owner \<Rightarrow> string \<Rightarrow> val \<Rightarrow> state \<Rightarrow> state" where
  "set_prop obj name v s =
     s\<lparr>objs := (objs s)(obj := (objs s obj)\<lparr>props := (props (objs s obj))(name := v)\<rparr>)\<rparr>"

definition set_destroyed :: "owner \<Rightarrow> bool \<Rightarrow> state \<Rightarrow> state" where
  "set_destroyed obj b s = s\<lparr>objs := (objs s)(obj := (objs s obj)\<lparr>isDestroyed := b\<rparr>)\<rparr>"

fun exec1 :: "event \<Rightarrow> state \<Rightarrow> state" where
  "exec1 (RunTask obj taskOrName timeout) s = snd (runTask obj taskOrName timeout s)"
| "exec1 (ScheduleTask obj queueName taskOrName args) s =
     snd (scheduleTask obj queueName taskOrName args s)"
| "exec1 (ThrottleTask obj taskName throttleArgs) s = snd (throttleTask obj taskName throttleArgs s)"
| "exec1 (DebounceTask obj nm debounceArgs) s = snd (debounceTask obj nm debounceArgs s)"
| "exec1 (CancelTask a) s = snd (cancelTask a s)"
| "exec1 (CancelDebounce obj name) s = snd (cancelDebounce obj name s)"
| "exec1 (Fire t) s = snd (fire t s)"
| "exec1 (RunDisposables obj) s = snd (runDisposables obj s)"
| "exec1 (SetProp obj name v) s = set_prop obj name v s"
| "exec1 (SetDestroyed obj b) s = set_destroyed obj b s"

definition exec :: "event list \<Rightarrow> state \<Rightarrow> state" where
  "exec evs s = fold exec1 evs s"

text \<open>
  The state when the modules are loaded, with the owners and the run loop's queues:
  empty registries, nothing scheduled.
\<close>

definition init :: "(owner \<Rightarrow> destroyable) \<Rightarrow> string list \<Rightarrow> state" where
  "init os qs =
     \<lparr>objs = os, registeredTimers = Map.empty, registeredDebounces = Map.empty,
      timerSets = (\<lambda>_. []), debounceMaps = (\<lambda>_. []), nextRef = 0, nextFn = 0,
      disposables = (\<lambda>_. []), pending = [], nextTimer = 0, queues = qs, calls = []\<rparr>"

text \<open>
  A small world for concrete runs: every owner has the methods \<^verbatim>\<open>doStuff\<close> (function
  0) and \<^verbatim>\<open>run\<close> (function 1); owner 1 is destroyed, the others are alive; the run
  loop has the queues \<^verbatim>\<open>actions\<close>, \<^verbatim>\<open>routerTransitions\<close>, \<^verbatim>\<open>render\<close>,
  \<^verbatim>\<open>afterRender\<close> and \<^verbatim>\<open>destroy\<close>.
\<close>

definition component :: "bool \<Rightarrow> destroyable" where
  "component d =
     \<lparr>isDestroyed = d,
      props = (\<lambda>n. if n = ''doStuff'' then VFun 0 else if n = ''run'' then VFun 1 else VUndefined)\<rparr>"

definition demo :: state where
  "demo = init (\<lambda>obj. component (obj = 1))
     [''actions'', ''routerTransitions'', ''render'', ''afterRender'', ''destroy'']"

section \<open>The invariant of a run\<close>

text \<open>
  Handles are issued by a counter, so the handles of the outstanding jobs are below it
  and pairwise different.
\<close>

definition ids_ok :: "state \<Rightarrow> bool" where
  "ids_ok s \<longleftrightarrow>
     (\<forall>(t, j) \<in> set (pending s). t < nextTimer s) \<and> distinct (map fst (pending s))"

text \<open>Each owner has a set and a map of its own, allocated before the next reference.\<close>

definition registry_ok :: "state \<Rightarrow> bool" where
  "registry_ok s \<longleftrightarrow>
     inj_on (registeredTimers s) (dom (registeredTimers s)) \<and>
     (\<forall>obj r. registeredTimers s obj = Some r \<longrightarrow> r < nextRef s) \<and>
     inj_on (registeredDebounces s) (dom (registeredDebounces s)) \<and>
     (\<forall>obj r. registeredDebounces s obj = Some r \<longrightarrow> r < nextRef s)"

text \<open>
  An outstanding job of the addon: the closure's \<^verbatim>\<open>cancelId\<close> is the job's own handle
  and its set is the one the registry holds for its owner; a pending debounce is the
  one the owner's map records under the name, with the job's handle.
\<close>

fun job_ok :: "state \<Rightarrow> timer \<Rightarrow> job \<Rightarrow> bool" where
  "job_ok s t (Later (RunTaskCallback r c f obj) _) \<longleftrightarrow>
     c = t \<and> registeredTimers s obj = Some r"
| "job_ok s t (Scheduled _ target (TaskWrapper r c f obj) _) \<longleftrightarrow>
     c = t \<and> target = obj \<and> registeredTimers s obj = Some r"
| "job_ok s t (Throttler _ _) \<longleftrightarrow> True"
| "job_ok s t (Debouncer target (DebouncedTask i r name obj) _) \<longleftrightarrow>
     target = obj \<and> registeredDebounces s obj = Some r \<and>
     map_of (debounceMaps s r) name =
       Some \<lparr>debouncedTask = DebouncedTask i r name obj, cancelId = t\<rparr>"
| "job_ok s t _ \<longleftrightarrow> False"

definition jobs_ok :: "state \<Rightarrow> bool" where
  "jobs_ok s \<longleftrightarrow> (\<forall>(t, j) \<in> set (pending s). job_ok s t j)"

fun disposable_ok :: "state \<Rightarrow> owner \<Rightarrow> disposable \<Rightarrow> bool" where
  "disposable_ok s obj (TimersDisposable obj' r) \<longleftrightarrow>
     obj' = obj \<and> registeredTimers s obj = Some r"
| "disposable_ok s obj (DebouncesDisposable r) \<longleftrightarrow> registeredDebounces s obj = Some r"

definition disposables_ok :: "state \<Rightarrow> bool" where
  "disposables_ok s \<longleftrightarrow> (\<forall>obj. \<forall>d \<in> set (disposables s obj). disposable_ok s obj d)"

text \<open>
  An owner's map has one entry per name; the entry under a name holds a wrapper made for
  this map, name and owner, and a handle that was issued.
\<close>

definition maps_ok :: "state \<Rightarrow> bool" where
  "maps_ok s \<longleftrightarrow>
     (\<forall>obj r. registeredDebounces s obj = Some r \<longrightarrow>
        distinct (map fst (debounceMaps s r)) \<and>
        (\<forall>name p. map_of (debounceMaps s r) name = Some p \<longrightarrow>
           cancelId p < nextTimer s \<and> (\<exists>i. debouncedTask p = DebouncedTask i r name obj)))"

definition well_formed :: "state \<Rightarrow> bool" where
  "well_formed s \<longleftrightarrow> ids_ok s \<and> registry_ok s \<and> jobs_ok s \<and> disposables_ok s \<and> maps_ok s"

text \<open>
  The last two statements of \<^verbatim>\<open>debounceTask\<close> as one step: the call of
  \<^verbatim>\<open>debounce\<close> and the \<^verbatim>\<open>pendingDebounces.set\<close> that records its handle.
\<close>

definition debounced :: "owner \<Rightarrow> ref \<Rightarrow> string \<Rightarrow> callback \<Rightarrow> val list \<Rightarrow> state \<Rightarrow> state" where
  "debounced obj r name task debounceArgs s =
     debounces_set r name
       \<lparr>debouncedTask = task, cancelId = fst (debounce obj task debounceArgs s)\<rparr>
       (snd (debounce obj task debounceArgs s))"

text \<open>
  What \<^verbatim>\<open>getTimers\<close> and the first statements of \<^verbatim>\<open>debounceTask\<close> return and leave
  when \<^verbatim>\<open>registerDisposable\<close> accepts the owner, as total functions: they serve to
  state the effect of a call that has returned. \<open>push_disposable\<close> is the update that
  \<^verbatim>\<open>registerDisposable\<close> makes on a live owner.
\<close>

definition push_disposable :: "owner \<Rightarrow> disposable \<Rightarrow> state \<Rightarrow> state" where
  "push_disposable obj dispose s =
     s\<lparr>disposables := (disposables s)(obj := disposables s obj @ [dispose])\<rparr>"

definition getTimers_ok :: "owner \<Rightarrow> state \<Rightarrow> ref \<times> state" where
  "getTimers_ok obj s =
     (case registeredTimers s obj of
        Some timers \<Rightarrow> (timers, s)
      | None \<Rightarrow>
          (let timers = nextRef s;
               s1 = s\<lparr>timerSets := (timerSets s)(timers := []), nextRef := Suc timers\<rparr>;
               s2 = s1\<lparr>registeredTimers := (registeredTimers s1)(obj \<mapsto> timers)\<rparr>
           in (timers, push_disposable obj (TimersDisposable obj timers) s2)))"

definition getDebounces_ok :: "owner \<Rightarrow> state \<Rightarrow> ref \<times> state" where
  "getDebounces_ok obj s =
     (case registeredDebounces s obj of
        Some pendingDebounces \<Rightarrow> (pendingDebounces, s)
      | None \<Rightarrow>
          (let pendingDebounces = nextRef s;
               s1 = s\<lparr>debounceMaps := (debounceMaps s)(pendingDebounces := []),
                      nextRef := Suc pendingDebounces\<rparr>;
               s2 = s1\<lparr>registeredDebounces := (registeredDebounces s1)(obj \<mapsto> pendingDebounces)\<rparr>
           in (pendingDebounces, push_disposable obj (DebouncesDisposable pendingDebounces) s2)))"

text \<open>
  \<open>extends s s'\<close>: from \<open>s\<close> to \<open>s'\<close> the handle counter has not gone back and every
  outstanding job is one of \<open>s\<close>, or a debounce of \<open>s\<close> re-armed under its handle
  (\<open>rearmed\<close>: the same job, or the same debounce with other arguments), or has a handle
  issued since. \<open>window_only t s\<close>: the handle \<open>t\<close> has been issued and is outstanding,
  if at all, as a throttle window.
\<close>

definition rearmed :: "job \<Rightarrow> job \<Rightarrow> bool" where
  "rearmed j j' \<longleftrightarrow>
     j' = j \<or> (\<exists>target method a a'. j = Debouncer target method a \<and> j' = Debouncer target method a')"

definition extends :: "state \<Rightarrow> state \<Rightarrow> bool" where
  "extends s s' \<longleftrightarrow>
     nextTimer s \<le> nextTimer s' \<and>
     (\<forall>(t, j') \<in> set (pending s').
        (\<exists>j. (t, j) \<in> set (pending s) \<and> rearmed j j') \<or> nextTimer s \<le> t)"

definition window_only :: "timer \<Rightarrow> state \<Rightarrow> bool" where
  "window_only t s \<longleftrightarrow>
     t < nextTimer s \<and> (\<forall>j. (t, j) \<in> set (pending s) \<longrightarrow> (\<exists>target f. j = Throttler target f))"


section \<open>Calls that return and calls that throw\<close>

lemma and_then_simps [simp]:
  "and_then (Inl e, s) f = (Inl e, s)"
  "and_then (Inr a, s) f = f a s"
  by (simp_all add: and_then_def)

lemma and_then_Inr:
  "and_then m f = (Inr b, s') \<longleftrightarrow> (\<exists>a s1. m = (Inr a, s1) \<and> f a s1 = (Inr b, s'))"
  by (cases m; cases "fst m") (auto simp: and_then_def)

text \<open>
  \<^verbatim>\<open>getTimers\<close> returns when the owner has a set already or is not destroyed; it throws
  on a destroyed owner without a set, and then leaves the state of a normal return less
  the disposable.
\<close>

lemma getTimers_returns:
  "registeredTimers s obj \<noteq> None \<or> \<not> isDestroyed (objs s obj) \<Longrightarrow>
   getTimers obj s = (Inr (fst (getTimers_ok obj s)), snd (getTimers_ok obj s))"
  by (auto simp: getTimers_def getTimers_ok_def registerDisposable_def push_disposable_def Let_def
      split: option.splits)

lemma getTimers_throws:
  "registeredTimers s obj = None \<Longrightarrow> isDestroyed (objs s obj) \<Longrightarrow>
   getTimers obj s =
     (Inl DestroyedOwnerError, (snd (getTimers_ok obj s))\<lparr>disposables := disposables s\<rparr>)"
  by (simp add: getTimers_def getTimers_ok_def registerDisposable_def push_disposable_def Let_def)

lemma getDebounces_returns:
  "registeredDebounces s obj \<noteq> None \<or> \<not> isDestroyed (objs s obj) \<Longrightarrow>
   getDebounces obj s = (Inr (fst (getDebounces_ok obj s)), snd (getDebounces_ok obj s))"
  by (auto simp: getDebounces_def getDebounces_ok_def registerDisposable_def push_disposable_def
      Let_def split: option.splits)

lemma getTimers_ok_objs: "objs (snd (getTimers_ok obj s)) = objs s"
  by (simp add: getTimers_ok_def push_disposable_def Let_def split: option.splits)

lemma getTimers_ok_queues: "queues (snd (getTimers_ok obj s)) = queues s"
  by (simp add: getTimers_ok_def push_disposable_def Let_def split: option.splits)

lemma throttle_ok:
  "props (objs s obj) name = VFun f \<Longrightarrow> \<exists>t s'. throttle obj name args s = (Inr t, s')"
  by (auto simp: throttle_def Let_def split: option.splits)

text \<open>
  The effect of each entry point on a live owner, after its assertions: the statements
  from \<^verbatim>\<open>getTimers\<close> on.
\<close>

lemma runTask_alive:
  "\<not> isDestroyed (objs s obj) \<Longrightarrow> getTask (objs s obj) taskOrName = Inr task \<Longrightarrow>
   runTask obj taskOrName timeout s =
     (Inr (nextTimer (snd (getTimers_ok obj s))),
      timers_add (fst (getTimers_ok obj s)) (nextTimer (snd (getTimers_ok obj s)))
        (add_job (Later (RunTaskCallback (fst (getTimers_ok obj s))
                           (nextTimer (snd (getTimers_ok obj s))) task obj)
                    (if timeout = VUndefined then VInt 0 else timeout))
           (snd (getTimers_ok obj s))))"
  by (simp add: runTask_def getTimers_returns later_def Let_def)

lemma scheduleTask_alive:
  "\<not> isDestroyed (objs s obj) \<Longrightarrow> getTask (objs s obj) taskOrName = Inr task \<Longrightarrow>
   q \<noteq> ''afterRender'' \<Longrightarrow>
   scheduleTask obj (VStr q) taskOrName args s =
     (if q \<in> set (queues s)
      then (Inr (nextTimer (snd (getTimers_ok obj s))),
            timers_add (fst (getTimers_ok obj s)) (nextTimer (snd (getTimers_ok obj s)))
              (add_job (Scheduled q obj (TaskWrapper (fst (getTimers_ok obj s))
                                  (nextTimer (snd (getTimers_ok obj s))) task obj) args)
                 (snd (getTimers_ok obj s))))
      else (Inl InvalidQueueError, snd (getTimers_ok obj s)))"
  by (simp add: scheduleTask_def getTimers_returns schedule_def getTimers_ok_queues Let_def)

lemma throttleTask_alive:
  "\<not> isDestroyed (objs s obj) \<Longrightarrow> typeof_function (props (objs s obj) name) \<Longrightarrow>
   Number_isInteger (last_arg throttleArgs) \<Longrightarrow>
   throttleTask obj (VStr name) throttleArgs s =
     and_then (throttle obj name throttleArgs (snd (getTimers_ok obj s)))
       (\<lambda>t s2. (Inr t, timers_add (fst (getTimers_ok obj s)) t s2))"
  by (simp add: throttleTask_def getTimers_returns)

lemma debounceTask_alive:
  "\<not> isDestroyed (objs s obj) \<Longrightarrow> typeof_function (props (objs s obj) name) \<Longrightarrow>
   Number_isInteger (last_arg debounceArgs) \<Longrightarrow>
   debounceTask obj (VStr name) debounceArgs s =
     (Inr (),
      (let r = fst (getDebounces_ok obj s); s1 = snd (getDebounces_ok obj s)
       in case map_of (debounceMaps s1 r) name of
            None \<Rightarrow> debounced obj r name (DebouncedTask (nextFn s1) r name obj) debounceArgs
                      (s1\<lparr>nextFn := Suc (nextFn s1)\<rparr>)
          | Some p \<Rightarrow> debounced obj r name (debouncedTask p) debounceArgs s1))"
  by (simp add: debounceTask_def getDebounces_returns debounced_def Let_def case_prod_unfold
      split: option.splits)

section \<open>Error results\<close>

text \<open>
  \<^verbatim>\<open>runTask\<close>, \<^verbatim>\<open>throttleTask\<close> and \<^verbatim>\<open>debounceTask\<close> throw only from their own
  assertions (and \<^verbatim>\<open>getTask\<close>), before anything is changed. \<^verbatim>\<open>scheduleTask\<close> throws
  from its assertions, or from the run loop's \<^verbatim>\<open>schedule\<close> after \<^verbatim>\<open>getTimers\<close> has
  run.
\<close>

lemma runTask_error_state:
  "fst (runTask obj taskOrName timeout s) = Inl e \<Longrightarrow> snd (runTask obj taskOrName timeout s) = s"
proof (cases "\<not> isDestroyed (objs s obj) \<and> \<not> isl (getTask (objs s obj) taskOrName)")
  case True
  then obtain task where "getTask (objs s obj) taskOrName = Inr task"
    by (cases "getTask (objs s obj) taskOrName") auto
  with True show "fst (runTask obj taskOrName timeout s) = Inl e \<Longrightarrow> ?thesis"
    by (simp add: runTask_alive)
next
  case False
  then show ?thesis
    by (auto simp: runTask_def split: sum.splits)
qed

lemma scheduleTask_error_cases:
  assumes "fst (scheduleTask obj queueName taskOrName args s) = Inl e"
  shows "snd (scheduleTask obj queueName taskOrName args s) = s \<or>
    (\<exists>q. queueName = VStr q \<and> q \<notin> set (queues s) \<and> e = InvalidQueueError \<and>
       snd (scheduleTask obj queueName taskOrName args s) = snd (getTimers_ok obj s))"
proof (cases "\<exists>q task. queueName = VStr q \<and> q \<noteq> ''afterRender'' \<and> \<not> isDestroyed (objs s obj) \<and>
    getTask (objs s obj) taskOrName = Inr task")
  case True
  then obtain q task where "queueName = VStr q" "q \<noteq> ''afterRender''"
    "\<not> isDestroyed (objs s obj)" "getTask (objs s obj) taskOrName = Inr task"
    by blast
  with assms show ?thesis
    by (auto simp: scheduleTask_alive split: if_splits)
next
  case False
  then have "snd (scheduleTask obj queueName taskOrName args s) = s"
    by (cases queueName) (auto simp: scheduleTask_def split: sum.splits)
  then show ?thesis ..
qed

lemma throttleTask_error_state:
  assumes "fst (throttleTask obj taskName throttleArgs s) = Inl e"
  shows "snd (throttleTask obj taskName throttleArgs s) = s"
proof (cases taskName)
  case (VStr name)
  show ?thesis
  proof (cases "typeof_function (props (objs s obj) name) \<and> \<not> isDestroyed (objs s obj)
      \<and> Number_isInteger (last_arg throttleArgs)")
    case True
    then obtain f where f: "props (objs s obj) name = VFun f"
      by (auto simp: typeof_function_def split: val.splits)
    then have "props (objs (snd (getTimers_ok obj s)) obj) name = VFun f"
      by (simp add: getTimers_ok_objs)
    then obtain t s2 where "throttle obj name throttleArgs (snd (getTimers_ok obj s)) = (Inr t, s2)"
      using throttle_ok by blast
    with True VStr have "fst (throttleTask obj taskName throttleArgs s) = Inr t"
      by (simp add: throttleTask_alive)
    with assms show ?thesis by simp
  next
    case False
    with VStr show ?thesis
      by (auto simp: throttleTask_def)
  qed
qed (auto simp: throttleTask_def)

lemma debounceTask_error_state:
  assumes "fst (debounceTask obj nm debounceArgs s) = Inl e"
  shows "snd (debounceTask obj nm debounceArgs s) = s"
proof (cases nm)
  case (VStr name)
  show ?thesis
  proof (cases "typeof_function (props (objs s obj) name) \<and> \<not> isDestroyed (objs s obj)
      \<and> Number_isInteger (last_arg debounceArgs)")
    case True
    with VStr assms show ?thesis
      by (simp add: debounceTask_alive)
  next
    case False
    with VStr show ?thesis
      by (auto simp: debounceTask_def)
  qed
qed (auto simp: debounceTask_def)

section \<open>The effect of each step on each field\<close>

lemma timers_add_fields [simp]:
  "objs (timers_add r t s) = objs s"
  "registeredTimers (timers_add r t s) = registeredTimers s"
  "registeredDebounces (timers_add r t s) = registeredDebounces s"
  "debounceMaps (timers_add r t s) = debounceMaps s"
  "nextRef (timers_add r t s) = nextRef s"
  "nextFn (timers_add r t s) = nextFn s"
  "disposables (timers_add r t s) = disposables s"
  "pending (timers_add r t s) = pending s"
  "nextTimer (timers_add r t s) = nextTimer s"
  "queues (timers_add r t s) = queues s"
  "calls (timers_add r t s) = calls s"
  by (simp_all add: timers_add_def)

lemma timers_delete_fields [simp]:
  "objs (timers_delete r t s) = objs s"
  "registeredTimers (timers_delete r t s) = registeredTimers s"
  "registeredDebounces (timers_delete r t s) = registeredDebounces s"
  "debounceMaps (timers_delete r t s) = debounceMaps s"
  "nextRef (timers_delete r t s) = nextRef s"
  "nextFn (timers_delete r t s) = nextFn s"
  "disposables (timers_delete r t s) = disposables s"
  "pending (timers_delete r t s) = pending s"
  "nextTimer (timers_delete r t s) = nextTimer s"
  "queues (timers_delete r t s) = queues s"
  "calls (timers_delete r t s) = calls s"
  by (simp_all add: timers_delete_def)

lemma timers_clear_fields [simp]:
  "objs (timers_clear r s) = objs s"
  "registeredTimers (timers_clear r s) = registeredTimers s"
  "registeredDebounces (timers_clear r s) = registeredDebounces s"
  "debounceMaps (timers_clear r s) = debounceMaps s"
  "nextRef (timers_clear r s) = nextRef s"
  "nextFn (timers_clear r s) = nextFn s"
  "disposables (timers_clear r s) = disposables s"
  "pending (timers_clear r s) = pending s"
  "nextTimer (timers_clear r s) = nextTimer s"
  "queues (timers_clear r s) = queues s"
  "calls (timers_clear r s) = calls s"
  by (simp_all add: timers_clear_def)

lemma timerSets_add [simp]:
  "set (timerSets (timers_add r t s) r') = (if r' = r then insert t (set (timerSets s r)) else set (timerSets s r'))"
  by (auto simp: timers_add_def)

lemma timerSets_delete [simp]:
  "timerSets (timers_delete r t s) r' = (if r' = r then removeAll t (timerSets s r) else timerSets s r')"
  by (simp add: timers_delete_def)

lemma timerSets_clear [simp]:
  "timerSets (timers_clear r s) r' = (if r' = r then [] else timerSets s r')"
  by (simp add: timers_clear_def)

lemma debounces_set_fields [simp]:
  "objs (debounces_set r n p s) = objs s"
  "registeredTimers (debounces_set r n p s) = registeredTimers s"
  "registeredDebounces (debounces_set r n p s) = registeredDebounces s"
  "timerSets (debounces_set r n p s) = timerSets s"
  "nextRef (debounces_set r n p s) = nextRef s"
  "nextFn (debounces_set r n p s) = nextFn s"
  "disposables (debounces_set r n p s) = disposables s"
  "pending (debounces_set r n p s) = pending s"
  "nextTimer (debounces_set r n p s) = nextTimer s"
  "queues (debounces_set r n p s) = queues s"
  "calls (debounces_set r n p s) = calls s"
  "debounceMaps (debounces_set r n p s) r' =
     (if r' = r then AList.update n p (debounceMaps s r) else debounceMaps s r')"
  by (simp_all add: debounces_set_def)

lemma debounces_delete_fields [simp]:
  "objs (debounces_delete r n s) = objs s"
  "registeredTimers (debounces_delete r n s) = registeredTimers s"
  "registeredDebounces (debounces_delete r n s) = registeredDebounces s"
  "timerSets (debounces_delete r n s) = timerSets s"
  "nextRef (debounces_delete r n s) = nextRef s"
  "nextFn (debounces_delete r n s) = nextFn s"
  "disposables (debounces_delete r n s) = disposables s"
  "pending (debounces_delete r n s) = pending s"
  "nextTimer (debounces_delete r n s) = nextTimer s"
  "queues (debounces_delete r n s) = queues s"
  "calls (debounces_delete r n s) = calls s"
  "debounceMaps (debounces_delete r n s) r' =
     (if r' = r then AList.delete n (debounceMaps s r) else debounceMaps s r')"
  by (simp_all add: debounces_delete_def)

lemma call_fields [simp]:
  "objs (call f this args s) = objs s"
  "registeredTimers (call f this args s) = registeredTimers s"
  "registeredDebounces (call f this args s) = registeredDebounces s"
  "timerSets (call f this args s) = timerSets s"
  "debounceMaps (call f this args s) = debounceMaps s"
  "nextRef (call f this args s) = nextRef s"
  "nextFn (call f this args s) = nextFn s"
  "disposables (call f this args s) = disposables s"
  "pending (call f this args s) = pending s"
  "nextTimer (call f this args s) = nextTimer s"
  "queues (call f this args s) = queues s"
  "calls (call f this args s) = calls s @ [(f, this, args)]"
  by (simp_all add: call_def)

lemma cancel_fields [simp]:
  "objs (cancel t s) = objs s"
  "registeredTimers (cancel t s) = registeredTimers s"
  "registeredDebounces (cancel t s) = registeredDebounces s"
  "timerSets (cancel t s) = timerSets s"
  "debounceMaps (cancel t s) = debounceMaps s"
  "nextRef (cancel t s) = nextRef s"
  "nextFn (cancel t s) = nextFn s"
  "disposables (cancel t s) = disposables s"
  "pending (cancel t s) = filter (\<lambda>(t', _). t' \<noteq> t) (pending s)"
  "nextTimer (cancel t s) = nextTimer s"
  "queues (cancel t s) = queues s"
  "calls (cancel t s) = calls s"
  by (simp_all add: cancel_def)

lemma push_disposable_fields [simp]:
  "objs (push_disposable obj d s) = objs s"
  "registeredTimers (push_disposable obj d s) = registeredTimers s"
  "registeredDebounces (push_disposable obj d s) = registeredDebounces s"
  "timerSets (push_disposable obj d s) = timerSets s"
  "debounceMaps (push_disposable obj d s) = debounceMaps s"
  "nextRef (push_disposable obj d s) = nextRef s"
  "nextFn (push_disposable obj d s) = nextFn s"
  "disposables (push_disposable obj d s) obj' =
     (if obj' = obj then disposables s obj @ [d] else disposables s obj')"
  "pending (push_disposable obj d s) = pending s"
  "nextTimer (push_disposable obj d s) = nextTimer s"
  "queues (push_disposable obj d s) = queues s"
  "calls (push_disposable obj d s) = calls s"
  by (simp_all add: push_disposable_def)

lemma set_prop_fields [simp]:
  "registeredTimers (set_prop obj n v s) = registeredTimers s"
  "registeredDebounces (set_prop obj n v s) = registeredDebounces s"
  "timerSets (set_prop obj n v s) = timerSets s"
  "debounceMaps (set_prop obj n v s) = debounceMaps s"
  "nextRef (set_prop obj n v s) = nextRef s"
  "nextFn (set_prop obj n v s) = nextFn s"
  "disposables (set_prop obj n v s) = disposables s"
  "pending (set_prop obj n v s) = pending s"
  "nextTimer (set_prop obj n v s) = nextTimer s"
  "queues (set_prop obj n v s) = queues s"
  "calls (set_prop obj n v s) = calls s"
  by (simp_all add: set_prop_def)

lemma set_destroyed_fields [simp]:
  "registeredTimers (set_destroyed obj b s) = registeredTimers s"
  "registeredDebounces (set_destroyed obj b s) = registeredDebounces s"
  "timerSets (set_destroyed obj b s) = timerSets s"
  "debounceMaps (set_destroyed obj b s) = debounceMaps s"
  "nextRef (set_destroyed obj b s) = nextRef s"
  "nextFn (set_destroyed obj b s) = nextFn s"
  "disposables (set_destroyed obj b s) = disposables s"
  "pending (set_destroyed obj b s) = pending s"
  "nextTimer (set_destroyed obj b s) = nextTimer s"
  "queues (set_destroyed obj b s) = queues s"
  "calls (set_destroyed obj b s) = calls s"
  by (simp_all add: set_destroyed_def)

section \<open>The invariant depends on few fields\<close>

lemma ids_ok_frame:
  "pending s' = pending s \<Longrightarrow> nextTimer s' = nextTimer s \<Longrightarrow> ids_ok s' = ids_ok s"
  by (simp add: ids_ok_def)

lemma registry_ok_frame:
  "registeredTimers s' = registeredTimers s \<Longrightarrow> registeredDebounces s' = registeredDebounces s \<Longrightarrow>
   nextRef s' = nextRef s \<Longrightarrow> registry_ok s' = registry_ok s"
  by (simp add: registry_ok_def)

lemma job_ok_frame:
  "registeredTimers s' = registeredTimers s \<Longrightarrow> registeredDebounces s' = registeredDebounces s \<Longrightarrow>
   debounceMaps s' = debounceMaps s \<Longrightarrow> job_ok s' t j = job_ok s t j"
  by (induction s t j rule: job_ok.induct) simp_all

lemma jobs_ok_frame:
  assumes "pending s' = pending s" "registeredTimers s' = registeredTimers s"
   "registeredDebounces s' = registeredDebounces s" "debounceMaps s' = debounceMaps s"
  shows "jobs_ok s' = jobs_ok s"
proof -
  have "\<And>t j. job_ok s' t j = job_ok s t j"
    using assms by (intro job_ok_frame)
  with assms(1) show ?thesis
    by (simp add: jobs_ok_def)
qed

lemma disposable_ok_frame:
  "registeredTimers s' = registeredTimers s \<Longrightarrow> registeredDebounces s' = registeredDebounces s \<Longrightarrow>
   disposable_ok s' obj d = disposable_ok s obj d"
  by (cases d) simp_all

lemma disposables_ok_frame:
  assumes "disposables s' = disposables s" "registeredTimers s' = registeredTimers s"
    "registeredDebounces s' = registeredDebounces s"
  shows "disposables_ok s' = disposables_ok s"
proof -
  have "\<And>obj d. disposable_ok s' obj d = disposable_ok s obj d"
    using assms by (intro disposable_ok_frame)
  with assms(1) show ?thesis
    by (simp add: disposables_ok_def)
qed

lemma maps_ok_frame:
  "registeredDebounces s' = registeredDebounces s \<Longrightarrow> debounceMaps s' = debounceMaps s \<Longrightarrow>
   nextTimer s' = nextTimer s \<Longrightarrow> maps_ok s' = maps_ok s"
  by (simp add: maps_ok_def)

lemma well_formed_frame:
  assumes "pending s' = pending s" "nextTimer s' = nextTimer s"
    "registeredTimers s' = registeredTimers s" "registeredDebounces s' = registeredDebounces s"
    "nextRef s' = nextRef s" "debounceMaps s' = debounceMaps s" "disposables s' = disposables s"
  shows "well_formed s' = well_formed s"
  unfolding well_formed_def
  using ids_ok_frame [of s' s] registry_ok_frame [of s' s] jobs_ok_frame [of s' s]
    disposables_ok_frame [of s' s] maps_ok_frame [of s' s] assms
  by simp

lemma wf_init: "well_formed (init os qs)"
  by (simp add: well_formed_def ids_ok_def registry_ok_def jobs_ok_def disposables_ok_def
      maps_ok_def init_def)

lemma wf_timers_add [simp]: "well_formed (timers_add r t s) = well_formed s"
  by (rule well_formed_frame) simp_all

lemma wf_timers_delete [simp]: "well_formed (timers_delete r t s) = well_formed s"
  by (rule well_formed_frame) simp_all

lemma wf_timers_clear [simp]: "well_formed (timers_clear r s) = well_formed s"
  by (rule well_formed_frame) simp_all

lemma wf_call [simp]: "well_formed (call f this args s) = well_formed s"
  by (rule well_formed_frame) simp_all

lemma wf_set_prop [simp]: "well_formed (set_prop obj n v s) = well_formed s"
  by (rule well_formed_frame) simp_all

lemma wf_set_destroyed [simp]: "well_formed (set_destroyed obj b s) = well_formed s"
  by (rule well_formed_frame) simp_all

lemma wf_cancel: "well_formed s \<Longrightarrow> well_formed (cancel t s)"
  unfolding well_formed_def
proof (intro conjI)
  assume a: "ids_ok s \<and> registry_ok s \<and> jobs_ok s \<and> disposables_ok s \<and> maps_ok s"
  show "ids_ok (cancel t s)"
    using a by (auto simp: ids_ok_def distinct_map_filter)
  show "registry_ok (cancel t s)"
    using a registry_ok_frame [of "cancel t s" s] by simp
  have "\<And>t' j. job_ok (cancel t s) t' j = job_ok s t' j"
    by (rule job_ok_frame) simp_all
  then show "jobs_ok (cancel t s)"
    using a by (auto simp: jobs_ok_def)
  show "disposables_ok (cancel t s)"
    using a disposables_ok_frame [of "cancel t s" s] by simp
  show "maps_ok (cancel t s)"
    using a maps_ok_frame [of "cancel t s" s] by simp
qed

section \<open>The invariant holds along every run\<close>

subsection \<open>The registries\<close>

lemma getTimers_Some: "registeredTimers s obj = Some r \<Longrightarrow> getTimers_ok obj s = (r, s)"
  by (simp add: getTimers_ok_def)

lemma getTimers_fields [simp]:
  "objs (snd (getTimers_ok obj s)) = objs s"
  "registeredDebounces (snd (getTimers_ok obj s)) = registeredDebounces s"
  "debounceMaps (snd (getTimers_ok obj s)) = debounceMaps s"
  "nextFn (snd (getTimers_ok obj s)) = nextFn s"
  "pending (snd (getTimers_ok obj s)) = pending s"
  "nextTimer (snd (getTimers_ok obj s)) = nextTimer s"
  "queues (snd (getTimers_ok obj s)) = queues s"
  "calls (snd (getTimers_ok obj s)) = calls s"
  by (simp_all add: getTimers_ok_def Let_def split: option.splits)

lemma getTimers_registered:
  "registeredTimers (snd (getTimers_ok obj s)) obj = Some (fst (getTimers_ok obj s))"
  by (simp add: getTimers_ok_def Let_def split: option.splits)

lemma getTimers_registry:
  "registeredTimers (snd (getTimers_ok obj s)) =
     (case registeredTimers s obj of Some r \<Rightarrow> registeredTimers s
      | None \<Rightarrow> (registeredTimers s)(obj \<mapsto> nextRef s))"
  by (simp add: getTimers_ok_def Let_def split: option.splits)

lemma job_ok_mono:
  assumes "job_ok s t j"
    and "\<And>obj r. registeredTimers s obj = Some r \<Longrightarrow> registeredTimers s' obj = Some r"
    and "\<And>obj r. registeredDebounces s obj = Some r \<Longrightarrow>
           registeredDebounces s' obj = Some r \<and> debounceMaps s' r = debounceMaps s r"
  shows "job_ok s' t j"
  using assms by (induction s t j rule: job_ok.induct) auto

lemma disposable_ok_mono:
  assumes "disposable_ok s obj d"
    and "\<And>obj r. registeredTimers s obj = Some r \<Longrightarrow> registeredTimers s' obj = Some r"
    and "\<And>obj r. registeredDebounces s obj = Some r \<Longrightarrow> registeredDebounces s' obj = Some r"
  shows "disposable_ok s' obj d"
  using assms by (cases d) auto

lemma inj_on_fresh:
  assumes "inj_on m (dom m)" "m x = None" "\<And>y r. m y = Some r \<Longrightarrow> r < (n::nat)"
  shows "inj_on (m(x \<mapsto> n)) (dom (m(x \<mapsto> n)))"
proof (rule inj_onI)
  fix a b
  assume a: "a \<in> dom (m(x \<mapsto> n))" and b: "b \<in> dom (m(x \<mapsto> n))"
    and e: "(m(x \<mapsto> n)) a = (m(x \<mapsto> n)) b"
  show "a = b"
  proof (cases "a = x")
    case True
    show ?thesis
    proof (rule ccontr)
      assume "a \<noteq> b"
      with True e have "m b = Some n" by simp
      with assms(3) [of b n] show False by simp
    qed
  next
    case False
    have bx: "b \<noteq> x"
    proof
      assume "b = x"
      with False e have "m a = Some n" by simp
      with assms(3) [of a n] show False by simp
    qed
    with False a b e assms(1) show ?thesis
      by (auto dest: inj_onD)
  qed
qed

lemma wf_getTimers:
  assumes "well_formed s"
  shows "well_formed (snd (getTimers_ok obj s))"
proof (cases "registeredTimers s obj")
  case (Some r)
  with assms show ?thesis
    by (simp add: getTimers_Some)
next
  case None
  let ?s = "snd (getTimers_ok obj s)"
  have rt: "registeredTimers ?s = (registeredTimers s)(obj \<mapsto> nextRef s)"
    using None by (simp add: getTimers_registry)
  have nr: "nextRef ?s = Suc (nextRef s)"
    using None by (simp add: getTimers_ok_def Let_def)
  have ds: "\<And>o'. disposables ?s o' =
      (if o' = obj then disposables s obj @ [TimersDisposable obj (nextRef s)] else disposables s o')"
    using None by (simp add: getTimers_ok_def Let_def)
  have mono: "\<And>o' r. registeredTimers s o' = Some r \<Longrightarrow> registeredTimers ?s o' = Some r"
    using None rt by auto
  from assms have a: "ids_ok s" "registry_ok s" "jobs_ok s" "disposables_ok s" "maps_ok s"
    by (simp_all add: well_formed_def)
  have 1: "ids_ok ?s"
    using a(1) ids_ok_frame [of ?s s] by simp
  have 2: "registry_ok ?s"
    unfolding registry_ok_def
  proof (intro conjI)
    show "inj_on (registeredTimers ?s) (dom (registeredTimers ?s))"
      unfolding rt using a(2) None by (intro inj_on_fresh) (auto simp: registry_ok_def)
    show "\<forall>obj r. registeredTimers ?s obj = Some r \<longrightarrow> r < nextRef ?s"
      using a(2) by (auto simp: rt nr registry_ok_def less_Suc_eq)
    show "inj_on (registeredDebounces ?s) (dom (registeredDebounces ?s))"
      using a(2) by (simp add: registry_ok_def)
    show "\<forall>obj r. registeredDebounces ?s obj = Some r \<longrightarrow> r < nextRef ?s"
      using a(2) by (auto simp: nr registry_ok_def less_Suc_eq)
  qed
  have 3: "jobs_ok ?s"
    unfolding jobs_ok_def
  proof (clarify)
    fix t j
    assume "(t, j) \<in> set (pending ?s)"
    with a(3) have "job_ok s t j"
      by (auto simp: jobs_ok_def)
    then show "job_ok ?s t j"
      by (rule job_ok_mono) (simp_all add: mono)
  qed
  have 4: "disposables_ok ?s"
    unfolding disposables_ok_def
  proof (intro allI ballI)
    fix o' d
    assume d: "d \<in> set (disposables ?s o')"
    show "disposable_ok ?s o' d"
    proof (cases "d \<in> set (disposables s o')")
      case True
      with a(4) have "disposable_ok s o' d"
        by (simp add: disposables_ok_def)
      then show ?thesis
        by (rule disposable_ok_mono) (simp_all add: mono)
    next
      case False
      with d ds [of o'] have "o' = obj" "d = TimersDisposable obj (nextRef s)"
        by (auto split: if_splits)
      then show ?thesis
        by (simp add: rt)
    qed
  qed
  have 5: "maps_ok ?s"
    using a(5) maps_ok_frame [of ?s s] by simp
  from 1 2 3 4 5 show ?thesis
    by (simp add: well_formed_def)
qed

lemma getDebounces_Some: "registeredDebounces s obj = Some r \<Longrightarrow> getDebounces_ok obj s = (r, s)"
  by (simp add: getDebounces_ok_def)

lemma getDebounces_fields [simp]:
  "objs (snd (getDebounces_ok obj s)) = objs s"
  "registeredTimers (snd (getDebounces_ok obj s)) = registeredTimers s"
  "timerSets (snd (getDebounces_ok obj s)) = timerSets s"
  "nextFn (snd (getDebounces_ok obj s)) = nextFn s"
  "pending (snd (getDebounces_ok obj s)) = pending s"
  "nextTimer (snd (getDebounces_ok obj s)) = nextTimer s"
  "queues (snd (getDebounces_ok obj s)) = queues s"
  "calls (snd (getDebounces_ok obj s)) = calls s"
  by (simp_all add: getDebounces_ok_def Let_def split: option.splits)

lemma getDebounces_registered:
  "registeredDebounces (snd (getDebounces_ok obj s)) obj = Some (fst (getDebounces_ok obj s))"
  by (simp add: getDebounces_ok_def Let_def split: option.splits)

lemma getDebounces_registry:
  "registeredDebounces (snd (getDebounces_ok obj s)) =
     (case registeredDebounces s obj of Some r \<Rightarrow> registeredDebounces s
      | None \<Rightarrow> (registeredDebounces s)(obj \<mapsto> nextRef s))"
  by (simp add: getDebounces_ok_def Let_def split: option.splits)

lemma wf_getDebounces:
  assumes "well_formed s"
  shows "well_formed (snd (getDebounces_ok obj s))"
proof (cases "registeredDebounces s obj")
  case (Some r)
  with assms show ?thesis
    by (simp add: getDebounces_Some)
next
  case None
  let ?s = "snd (getDebounces_ok obj s)"
  have rd: "registeredDebounces ?s = (registeredDebounces s)(obj \<mapsto> nextRef s)"
    using None by (simp add: getDebounces_registry)
  have nr: "nextRef ?s = Suc (nextRef s)"
    using None by (simp add: getDebounces_ok_def Let_def)
  have dm: "debounceMaps ?s = (debounceMaps s)(nextRef s := [])"
    using None by (simp add: getDebounces_ok_def Let_def)
  have ds: "\<And>o'. disposables ?s o' =
      (if o' = obj then disposables s obj @ [DebouncesDisposable (nextRef s)] else disposables s o')"
    using None by (simp add: getDebounces_ok_def Let_def)
  from assms have a: "ids_ok s" "registry_ok s" "jobs_ok s" "disposables_ok s" "maps_ok s"
    by (simp_all add: well_formed_def)
  have below: "\<And>o' r. registeredDebounces s o' = Some r \<Longrightarrow> r < nextRef s"
    using a(2) by (auto simp: registry_ok_def)
  have mono: "\<And>o' r. registeredDebounces s o' = Some r \<Longrightarrow>
      registeredDebounces ?s o' = Some r \<and> debounceMaps ?s r = debounceMaps s r"
    using None rd dm below by fastforce
  have 1: "ids_ok ?s"
    using a(1) ids_ok_frame [of ?s s] by simp
  have 2: "registry_ok ?s"
    unfolding registry_ok_def
  proof (intro conjI)
    show "inj_on (registeredDebounces ?s) (dom (registeredDebounces ?s))"
      unfolding rd using a(2) None by (intro inj_on_fresh) (auto simp: registry_ok_def)
    show "\<forall>obj r. registeredDebounces ?s obj = Some r \<longrightarrow> r < nextRef ?s"
      using a(2) by (auto simp: rd nr registry_ok_def less_Suc_eq)
    show "inj_on (registeredTimers ?s) (dom (registeredTimers ?s))"
      using a(2) by (simp add: registry_ok_def)
    show "\<forall>obj r. registeredTimers ?s obj = Some r \<longrightarrow> r < nextRef ?s"
      using a(2) by (auto simp: nr registry_ok_def less_Suc_eq)
  qed
  have 3: "jobs_ok ?s"
    unfolding jobs_ok_def
  proof (clarify)
    fix t j
    assume "(t, j) \<in> set (pending ?s)"
    with a(3) have "job_ok s t j"
      by (auto simp: jobs_ok_def)
    then show "job_ok ?s t j"
      by (rule job_ok_mono) (simp_all add: mono)
  qed
  have 4: "disposables_ok ?s"
    unfolding disposables_ok_def
  proof (intro allI ballI)
    fix o' d
    assume d: "d \<in> set (disposables ?s o')"
    show "disposable_ok ?s o' d"
    proof (cases "d \<in> set (disposables s o')")
      case True
      with a(4) have "disposable_ok s o' d"
        by (simp add: disposables_ok_def)
      then show ?thesis
        by (rule disposable_ok_mono) (simp_all add: mono)
    next
      case False
      with d ds [of o'] have "o' = obj" "d = DebouncesDisposable (nextRef s)"
        by (auto split: if_splits)
      then show ?thesis
        by (simp add: rd)
    qed
  qed
  have 5: "maps_ok ?s"
    unfolding maps_ok_def
  proof (intro allI impI)
    fix o' r
    assume r: "registeredDebounces ?s o' = Some r"
    show "distinct (map fst (debounceMaps ?s r)) \<and>
        (\<forall>name p. map_of (debounceMaps ?s r) name = Some p \<longrightarrow>
            cancelId p < nextTimer ?s \<and> (\<exists>i. debouncedTask p = DebouncedTask i r name o'))"
    proof (cases "r = nextRef s")
      case True
      then show ?thesis by (simp add: dm)
    next
      case False
      with r rd have "registeredDebounces s o' = Some r"
        by (auto split: if_splits)
      with a(5) False show ?thesis
        by (simp add: maps_ok_def dm)
    qed
  qed
  from 1 2 3 4 5 show ?thesis
    by (simp add: well_formed_def)
qed

subsection \<open>Scheduling and canceling tasks\<close>

lemma add_job_fields [simp]:
  "objs (add_job j s) = objs s"
  "registeredTimers (add_job j s) = registeredTimers s"
  "registeredDebounces (add_job j s) = registeredDebounces s"
  "timerSets (add_job j s) = timerSets s"
  "debounceMaps (add_job j s) = debounceMaps s"
  "nextRef (add_job j s) = nextRef s"
  "nextFn (add_job j s) = nextFn s"
  "disposables (add_job j s) = disposables s"
  "pending (add_job j s) = pending s @ [(nextTimer s, j)]"
  "nextTimer (add_job j s) = Suc (nextTimer s)"
  "queues (add_job j s) = queues s"
  "calls (add_job j s) = calls s"
  by (simp_all add: add_job_def)

lemma wf_add_job:
  assumes "well_formed s" "job_ok s (nextTimer s) j"
  shows "well_formed (add_job j s)"
proof -
  let ?s = "add_job j s"
  from assms have a: "ids_ok s" "registry_ok s" "jobs_ok s" "disposables_ok s" "maps_ok s"
    by (simp_all add: well_formed_def)
  have 1: "ids_ok ?s"
    using a(1) by (fastforce simp: ids_ok_def less_Suc_eq)
  have 2: "registry_ok ?s"
    using a(2) registry_ok_frame [of ?s s] by simp
  have jf: "\<And>t j. job_ok ?s t j = job_ok s t j"
    by (rule job_ok_frame) simp_all
  have 3: "jobs_ok ?s"
    using a(3) assms(2) by (auto simp: jobs_ok_def jf)
  have 4: "disposables_ok ?s"
    using a(4) disposables_ok_frame [of ?s s] by simp
  have 5: "maps_ok ?s"
    using a(5) by (fastforce simp: maps_ok_def less_Suc_eq)
  from 1 2 3 4 5 show ?thesis
    by (simp add: well_formed_def)
qed

lemma later_add_job: "later mk timeout s = (nextTimer s, add_job (Later (mk (nextTimer s)) timeout) s)"
  by (simp add: later_def add_job_def Let_def)

lemma runTask_Inr:
  assumes "runTask obj taskOrName timeout s = (Inr t, s')"
  shows "\<exists>task. getTask (objs s obj) taskOrName = Inr task \<and> \<not> isDestroyed (objs s obj) \<and>
     t = nextTimer s \<and>
     s' = timers_add (fst (getTimers_ok obj s)) t
            (add_job (Later (RunTaskCallback (fst (getTimers_ok obj s)) t task obj)
                       (if timeout = VUndefined then VInt 0 else timeout))
               (snd (getTimers_ok obj s)))"
proof (cases "\<not> isDestroyed (objs s obj) \<and> \<not> isl (getTask (objs s obj) taskOrName)")
  case True
  then obtain task where "getTask (objs s obj) taskOrName = Inr task"
    by (cases "getTask (objs s obj) taskOrName") auto
  with True assms show ?thesis
    by (auto simp: runTask_alive)
next
  case False
  with assms show ?thesis
    by (auto simp: runTask_def split: sum.splits if_splits)
qed

lemma scheduleTask_Inr:
  assumes "scheduleTask obj queueName taskOrName args s = (Inr t, s')"
  shows "\<exists>task q. getTask (objs s obj) taskOrName = Inr task \<and> \<not> isDestroyed (objs s obj) \<and>
     queueName = VStr q \<and> q \<noteq> ''afterRender'' \<and> q \<in> set (queues s) \<and> t = nextTimer s \<and>
     s' = timers_add (fst (getTimers_ok obj s)) t
            (add_job (Scheduled q obj (TaskWrapper (fst (getTimers_ok obj s)) t task obj) args)
               (snd (getTimers_ok obj s)))"
proof (cases "\<exists>q task. queueName = VStr q \<and> q \<noteq> ''afterRender'' \<and> \<not> isDestroyed (objs s obj) \<and>
    getTask (objs s obj) taskOrName = Inr task")
  case True
  then obtain q task where "queueName = VStr q" "q \<noteq> ''afterRender''"
    "\<not> isDestroyed (objs s obj)" "getTask (objs s obj) taskOrName = Inr task"
    by blast
  with assms show ?thesis
    by (auto simp: scheduleTask_alive split: if_splits)
next
  case False
  with assms show ?thesis
    by (cases queueName) (auto simp: scheduleTask_def split: sum.splits if_splits)
qed

lemma wf_runTask:
  assumes "well_formed s"
  shows "well_formed (snd (runTask obj taskOrName timeout s))"
proof (cases "fst (runTask obj taskOrName timeout s)")
  case (Inl e)
  with assms show ?thesis
    by (simp add: runTask_error_state)
next
  case (Inr t)
  then have "runTask obj taskOrName timeout s = (Inr t, snd (runTask obj taskOrName timeout s))"
    by (simp add: prod_eq_iff)
  from runTask_Inr [OF this] obtain task where
    s': "snd (runTask obj taskOrName timeout s) = timers_add (fst (getTimers_ok obj s)) t
            (add_job (Later (RunTaskCallback (fst (getTimers_ok obj s)) t task obj)
                       (if timeout = VUndefined then VInt 0 else timeout))
               (snd (getTimers_ok obj s)))"
    and t: "t = nextTimer s"
    by auto
  show ?thesis
    unfolding s' using assms t
    by (simp add: wf_add_job wf_getTimers getTimers_registered)
qed

lemma wf_scheduleTask:
  assumes "well_formed s"
  shows "well_formed (snd (scheduleTask obj queueName taskOrName args s))"
proof (cases "fst (scheduleTask obj queueName taskOrName args s)")
  case (Inl e)
  from scheduleTask_error_cases [OF this] assms show ?thesis
    by (auto simp: wf_getTimers)
next
  case (Inr t)
  then have "scheduleTask obj queueName taskOrName args s =
      (Inr t, snd (scheduleTask obj queueName taskOrName args s))"
    by (simp add: prod_eq_iff)
  from scheduleTask_Inr [OF this] obtain task q where
    s': "snd (scheduleTask obj queueName taskOrName args s) = timers_add (fst (getTimers_ok obj s)) t
            (add_job (Scheduled q obj (TaskWrapper (fst (getTimers_ok obj s)) t task obj) args)
               (snd (getTimers_ok obj s)))"
    and t: "t = nextTimer s"
    by auto
  show ?thesis
    unfolding s' using assms t
    by (simp add: wf_add_job wf_getTimers getTimers_registered)
qed

lemma throttle_cases:
  assumes "props (objs s target) method = VFun f"
  shows "(\<exists>t j. find (\<lambda>(t, j). j = Throttler target f) (pending s) = Some (t, j) \<and>
            throttle target method throttleArgs s = (Inr t, s)) \<or>
         (find (\<lambda>(t, j). j = Throttler target f) (pending s) = None \<and>
            throttle target method throttleArgs s =
              (Inr (nextTimer s), call f target (butlast throttleArgs) (add_job (Throttler target f) s)))"
  using assms by (auto simp: throttle_def add_job_def call_def Let_def split: option.splits)

lemma wf_throttle:
  assumes "well_formed s"
  shows "well_formed (snd (throttle target method throttleArgs s))"
proof (cases "props (objs s target) method")
  case (VFun f)
  from throttle_cases [OF this, of throttleArgs] assms show ?thesis
    by (auto simp: wf_add_job)
qed (simp_all add: throttle_def assms)

lemma throttleTask_Inr:
  assumes "throttleTask obj taskName throttleArgs s = (Inr t, s1)"
  shows "\<exists>name. taskName = VStr name \<and> typeof_function (props (objs s obj) name) \<and>
     \<not> isDestroyed (objs s obj) \<and> Number_isInteger (last_arg throttleArgs) \<and>
     fst (throttle obj name throttleArgs (snd (getTimers_ok obj s))) = Inr t \<and>
     s1 = timers_add (fst (getTimers_ok obj s)) t
            (snd (throttle obj name throttleArgs (snd (getTimers_ok obj s))))"
proof (cases taskName)
  case (VStr name)
  show ?thesis
  proof (cases "typeof_function (props (objs s obj) name) \<and> \<not> isDestroyed (objs s obj)
      \<and> Number_isInteger (last_arg throttleArgs)")
    case True
    with assms VStr show ?thesis
      by (auto simp: throttleTask_alive and_then_Inr)
  next
    case False
    with assms VStr show ?thesis
      by (auto simp: throttleTask_def split: if_splits)
  qed
qed (use assms in \<open>auto simp: throttleTask_def\<close>)

lemma wf_throttleTask:
  assumes "well_formed s"
  shows "well_formed (snd (throttleTask obj taskName throttleArgs s))"
proof (cases "fst (throttleTask obj taskName throttleArgs s)")
  case (Inl e)
  with assms show ?thesis
    by (simp add: throttleTask_error_state)
next
  case (Inr t)
  then have "throttleTask obj taskName throttleArgs s =
      (Inr t, snd (throttleTask obj taskName throttleArgs s))"
    by (simp add: prod_eq_iff)
  from throttleTask_Inr [OF this] obtain name where
    s1: "snd (throttleTask obj taskName throttleArgs s) = timers_add (fst (getTimers_ok obj s)) t
            (snd (throttle obj name throttleArgs (snd (getTimers_ok obj s))))"
    by auto
  have "well_formed (snd (throttle obj name throttleArgs (snd (getTimers_ok obj s))))"
    using assms by (intro wf_throttle wf_getTimers)
  then show ?thesis
    by (simp add: s1)
qed

text \<open>
  \<^verbatim>\<open>cancelTask(obj, cancelId)\<close> throws exactly when \<^verbatim>\<open>getTimers\<close> does, before
  anything is deleted or canceled.
\<close>

lemma cancelTask_WithObj:
  "cancelTask (WithObj obj t) s =
     (if registeredTimers s obj = None \<and> isDestroyed (objs s obj)
      then (Inl DestroyedOwnerError, (snd (getTimers_ok obj s))\<lparr>disposables := disposables s\<rparr>)
      else (Inr (), cancel t (timers_delete (fst (getTimers_ok obj s)) t (snd (getTimers_ok obj s)))))"
  by (auto simp: cancelTask_def getTimers_returns getTimers_throws)

lemma cancelTask_Legacy: "cancelTask (Legacy t) s = (Inr (), cancel t s)"
  by (simp add: cancelTask_def)

lemma getTimers_ok_disposables:
  "set (disposables s o') \<subseteq> set (disposables (snd (getTimers_ok obj s)) o')"
  by (auto simp: getTimers_ok_def Let_def split: option.splits)

lemma wf_fewer_disposables:
  assumes "well_formed s" "\<And>o'. set (ds o') \<subseteq> set (disposables s o')"
  shows "well_formed (s\<lparr>disposables := ds\<rparr>)"
proof -
  let ?s = "s\<lparr>disposables := ds\<rparr>"
  from assms(1) have a: "ids_ok s" "registry_ok s" "jobs_ok s" "disposables_ok s" "maps_ok s"
    by (simp_all add: well_formed_def)
  have "disposable_ok ?s obj d = disposable_ok s obj d" for obj d
    by (rule disposable_ok_frame) simp_all
  with a(4) assms(2) have "disposables_ok ?s"
    by (auto simp: disposables_ok_def)
  with a show ?thesis
    using ids_ok_frame [of ?s s] registry_ok_frame [of ?s s] jobs_ok_frame [of ?s s]
      maps_ok_frame [of ?s s]
    by (simp add: well_formed_def)
qed

lemma wf_getTimers_thrown:
  "well_formed s \<Longrightarrow> well_formed ((snd (getTimers_ok obj s))\<lparr>disposables := disposables s\<rparr>)"
  by (intro wf_fewer_disposables wf_getTimers getTimers_ok_disposables)

lemma wf_cancelTask:
  assumes "well_formed s"
  shows "well_formed (snd (cancelTask a s))"
proof (cases a)
  case (Legacy t)
  with assms show ?thesis
    by (simp add: cancelTask_def wf_cancel)
next
  case (WithObj obj t)
  have "well_formed (cancel t (timers_delete (fst (getTimers_ok obj s)) t (snd (getTimers_ok obj s))))"
    using assms by (intro wf_cancel) (simp add: wf_getTimers)
  with WithObj assms show ?thesis
    by (simp add: cancelTask_WithObj wf_getTimers_thrown)
qed

text \<open>What every iteration of a loop preserves holds when the loop ends or is left.\<close>

lemma forEach_invariant:
  assumes "P s" "\<And>x s'. x \<in> set xs \<Longrightarrow> P s' \<Longrightarrow> P (snd (f x s'))"
  shows "P (snd (forEach f xs s))"
  using assms
proof (induction xs arbitrary: s)
  case Nil
  then show ?case by simp
next
  case (Cons x xs)
  have 1: "P (snd (f x s))"
    using Cons.prems by simp
  show ?case
  proof (cases "f x s")
    case (Pair r s')
    show ?thesis
    proof (cases r)
      case (Inl e)
      with Pair 1 show ?thesis by simp
    next
      case (Inr u)
      have "P (snd (forEach f xs s'))"
        using 1 Pair Cons.prems(2) by (intro Cons.IH) simp_all
      with Pair Inr show ?thesis by simp
    qed
  qed
qed

lemma getTimersDisposable_state:
  "snd (getTimersDisposable obj timers s) =
     (let m = forEach (\<lambda>cancelId. cancelTask (WithObj obj cancelId)) (timerSets s timers) s
      in if isl (fst m) then snd m else timers_clear timers (snd m))"
  by (simp add: getTimersDisposable_def and_then_def Let_def split: prod.splits sum.splits)

lemma wf_getTimersDisposable:
  assumes "well_formed s"
  shows "well_formed (snd (getTimersDisposable obj timers s))"
proof -
  have "well_formed (snd (forEach (\<lambda>cancelId. cancelTask (WithObj obj cancelId)) ts s))" for ts
    using assms by (rule forEach_invariant) (rule wf_cancelTask)
  then show ?thesis
    by (simp add: getTimersDisposable_state Let_def)
qed

lemma wf_fold_cancel:
  "well_formed s \<Longrightarrow> well_formed (fold (\<lambda>(_, p). cancel (cancelId p)) ps s)"
  by (induction ps arbitrary: s) (auto simp: wf_cancel)

lemma wf_getDebouncesDisposable:
  "well_formed s \<Longrightarrow> well_formed (getDebouncesDisposable debounces s)"
  by (simp add: getDebouncesDisposable_def wf_fold_cancel)

subsection \<open>Debounces\<close>

lemma debounce_fields [simp]:
  "objs (snd (debounce target m args s)) = objs s"
  "registeredTimers (snd (debounce target m args s)) = registeredTimers s"
  "registeredDebounces (snd (debounce target m args s)) = registeredDebounces s"
  "timerSets (snd (debounce target m args s)) = timerSets s"
  "debounceMaps (snd (debounce target m args s)) = debounceMaps s"
  "nextRef (snd (debounce target m args s)) = nextRef s"
  "nextFn (snd (debounce target m args s)) = nextFn s"
  "disposables (snd (debounce target m args s)) = disposables s"
  "queues (snd (debounce target m args s)) = queues s"
  "calls (snd (debounce target m args s)) = calls s"
  by (simp_all add: debounce_def Let_def split: option.splits prod.splits)

lemma debounce_new:
  "find (\<lambda>(t, j). is_debouncer_of target m j) (pending s) = None \<Longrightarrow>
   debounce target m args s = (nextTimer s, add_job (Debouncer target m (butlast args)) s)"
  by (simp add: debounce_def)

lemma debounce_rearm:
  "find (\<lambda>(t, j). is_debouncer_of target m j) (pending s) = Some (t, j) \<Longrightarrow>
   debounce target m args s =
     (t, s\<lparr>pending := map (\<lambda>(t', j). if t' = t then (t', Debouncer target m (butlast args))
                                 else (t', j)) (pending s)\<rparr>)"
  by (simp add: debounce_def)

lemma is_debouncer_of_iff: "is_debouncer_of target m j \<longleftrightarrow> (\<exists>a. j = Debouncer target m a)"
  by (cases j) (auto simp: is_debouncer_of_def)

lemma find_debouncer_Some:
  assumes "find (\<lambda>(t, j). is_debouncer_of target m j) (pending s) = Some (t, j)"
  shows "\<exists>a. j = Debouncer target m a \<and> (t, Debouncer target m a) \<in> set (pending s)"
proof -
  from assms obtain i where "i < length (pending s)" "pending s ! i = (t, j)"
    "is_debouncer_of target m j"
    by (auto simp: find_Some_iff)
  then have "(t, j) \<in> set (pending s)" "\<exists>a. j = Debouncer target m a"
    by (auto simp: in_set_conv_nth is_debouncer_of_iff)
  then show ?thesis by auto
qed

lemma find_debouncer_None:
  assumes "find (\<lambda>(t, j). is_debouncer_of target m j) (pending s) = None"
    "(t, j) \<in> set (pending s)"
  shows "\<not> is_debouncer_of target m j"
  using assms by (auto simp: find_None_iff)

lemma debounceTask_Inr:
  assumes "debounceTask obj nm debounceArgs s = (Inr u, s')"
  shows "\<exists>name. nm = VStr name \<and> typeof_function (props (objs s obj) name) \<and>
     \<not> isDestroyed (objs s obj) \<and> Number_isInteger (last_arg debounceArgs) \<and>
     s' = (let r = fst (getDebounces_ok obj s); s1 = snd (getDebounces_ok obj s)
           in case map_of (debounceMaps s1 r) name of
                None \<Rightarrow> debounced obj r name (DebouncedTask (nextFn s1) r name obj) debounceArgs
                          (s1\<lparr>nextFn := Suc (nextFn s1)\<rparr>)
              | Some p \<Rightarrow> debounced obj r name (debouncedTask p) debounceArgs s1)"
proof (cases nm)
  case (VStr name)
  show ?thesis
  proof (cases "typeof_function (props (objs s obj) name) \<and> \<not> isDestroyed (objs s obj)
      \<and> Number_isInteger (last_arg debounceArgs)")
    case True
    with assms VStr show ?thesis
      by (auto simp: debounceTask_alive)
  next
    case False
    with assms VStr show ?thesis
      by (auto simp: debounceTask_def split: if_splits)
  qed
qed (use assms in \<open>auto simp: debounceTask_def\<close>)

lemma wf_nextFn [simp]: "well_formed (s\<lparr>nextFn := n\<rparr>) = well_formed s"
  by (rule well_formed_frame) simp_all

lemma registry_inj_timers:
  "registry_ok s \<Longrightarrow> registeredTimers s a = Some r \<Longrightarrow> registeredTimers s b = Some r \<Longrightarrow>
   a = b"
  unfolding registry_ok_def inj_on_def by (metis domI)

lemma registry_inj_debounces:
  "registry_ok s \<Longrightarrow> registeredDebounces s a = Some r \<Longrightarrow>
   registeredDebounces s b = Some r \<Longrightarrow> a = b"
  unfolding registry_ok_def inj_on_def by (metis domI)

lemma maps_ok_entry:
  "maps_ok s \<Longrightarrow> registeredDebounces s obj = Some r \<Longrightarrow>
   map_of (debounceMaps s r) name = Some p \<Longrightarrow>
   cancelId p < nextTimer s \<and> (\<exists>i. debouncedTask p = DebouncedTask i r name obj)"
  unfolding maps_ok_def by blast

lemma jobs_ok_job: "well_formed s \<Longrightarrow> (t, j) \<in> set (pending s) \<Longrightarrow> job_ok s t j"
  by (auto simp: well_formed_def jobs_ok_def)

lemma job_ok_args: "job_ok s t (Debouncer tg cb a) = job_ok s t (Debouncer tg cb a')"
  by (cases cb) simp_all

text \<open>Re-arming a pending debounce: the job keeps its handle and gets new arguments.\<close>

lemma map_fst_rearm:
  "map (fst \<circ> (\<lambda>(t', j). if t' = t then (t', x) else (t', j))) ps = map fst ps"
  by (induction ps) auto

lemma wf_rearm:
  assumes wf: "well_formed s" and job: "(t, Debouncer obj task a) \<in> set (pending s)"
  shows "well_formed
    (s\<lparr>pending := map (\<lambda>(t', j). if t' = t then (t', Debouncer obj task a') else (t', j))
                    (pending s)\<rparr>)"
proof -
  let ?s = "s\<lparr>pending := map (\<lambda>(t', j). if t' = t then (t', Debouncer obj task a') else (t', j))
                    (pending s)\<rparr>"
  from wf have a: "ids_ok s" "registry_ok s" "jobs_ok s" "disposables_ok s" "maps_ok s"
    by (simp_all add: well_formed_def)
  have lt: "t < nextTimer s"
    using a(1) job by (auto simp: ids_ok_def)
  have 1: "ids_ok ?s"
    using a(1) lt by (auto simp: ids_ok_def map_fst_rearm split: if_splits)
  have 2: "registry_ok ?s"
    using a(2) registry_ok_frame [of ?s s] by simp
  have jf: "\<And>t j. job_ok ?s t j = job_ok s t j"
    by (rule job_ok_frame) simp_all
  have "job_ok s t (Debouncer obj task a')"
    using jobs_ok_job [OF wf job] job_ok_args by blast
  then have 3: "jobs_ok ?s"
    using a(3) by (auto simp: jobs_ok_def jf split: if_splits)
  have 4: "disposables_ok ?s"
    using a(4) disposables_ok_frame [of ?s s] by simp
  have 5: "maps_ok ?s"
    using a(5) maps_ok_frame [of ?s s] by simp
  from 1 2 3 4 5 show ?thesis
    by (simp add: well_formed_def)
qed

lemma debounced_rearm:
  assumes wf: "well_formed s"
    and fd: "find (\<lambda>(t, j). is_debouncer_of obj (DebouncedTask i r name obj) j) (pending s) =
      Some (t, j)"
  shows "debounced obj r name (DebouncedTask i r name obj) args s =
      s\<lparr>pending := map (\<lambda>(t', j). if t' = t
                          then (t', Debouncer obj (DebouncedTask i r name obj) (butlast args))
                          else (t', j)) (pending s)\<rparr>"
    and "map_of (debounceMaps s r) name =
      Some \<lparr>debouncedTask = DebouncedTask i r name obj, cancelId = t\<rparr>"
    and "\<exists>a. (t, Debouncer obj (DebouncedTask i r name obj) a) \<in> set (pending s)"
proof -
  from find_debouncer_Some [OF fd] obtain a where
    job: "(t, Debouncer obj (DebouncedTask i r name obj) a) \<in> set (pending s)"
    by blast
  then show "\<exists>a. (t, Debouncer obj (DebouncedTask i r name obj) a) \<in> set (pending s)" ..
  from jobs_ok_job [OF wf job]
  show e: "map_of (debounceMaps s r) name =
      Some \<lparr>debouncedTask = DebouncedTask i r name obj, cancelId = t\<rparr>"
    by simp
  show "debounced obj r name (DebouncedTask i r name obj) args s =
      s\<lparr>pending := map (\<lambda>(t', j). if t' = t
                          then (t', Debouncer obj (DebouncedTask i r name obj) (butlast args))
                          else (t', j)) (pending s)\<rparr>"
    by (simp add: debounced_def debounce_rearm [OF fd] debounces_set_def update_triv [OF e])
qed

lemma wf_debounced:
  assumes wf: "well_formed s" and r: "registeredDebounces s obj = Some r"
    and task: "(\<exists>p. map_of (debounceMaps s r) name = Some p \<and> task = debouncedTask p) \<or>
      (map_of (debounceMaps s r) name = None \<and> task = DebouncedTask i r name obj)"
  shows "well_formed (debounced obj r name task debounceArgs s)"
proof (cases "find (\<lambda>(t, j). is_debouncer_of obj task j) (pending s)")
  case (Some tj)
  from wf have maps: "maps_ok s"
    by (simp add: well_formed_def)
  obtain i' where task': "task = DebouncedTask i' r name obj"
    using task maps_ok_entry [OF maps r, of name] by blast
  obtain t j where tj: "tj = (t, j)"
    by (cases tj)
  note R = debounced_rearm [OF wf Some [unfolded tj task']]
  from R(3) obtain a where "(t, Debouncer obj task a) \<in> set (pending s)"
    unfolding task' by blast
  from wf_rearm [OF wf this] show ?thesis
    unfolding task' R(1) by (simp add: task')
next
  case None
  let ?s = "debounced obj r name task debounceArgs s"
  let ?e = "\<lparr>debouncedTask = task, cancelId = nextTimer s\<rparr>"
  have e: "?s = debounces_set r name ?e (add_job (Debouncer obj task (butlast debounceArgs)) s)"
    by (simp add: debounced_def debounce_new [OF None])
  from wf have a: "ids_ok s" "registry_ok s" "jobs_ok s" "disposables_ok s" "maps_ok s"
    by (simp_all add: well_formed_def)
  have inj: "\<And>o'. registeredDebounces s o' = Some r \<Longrightarrow> o' = obj"
    using registry_inj_debounces [OF a(2) _ r] by simp
  obtain i' where task': "task = DebouncedTask i' r name obj"
    using task maps_ok_entry [OF a(5) r, of name] by blast
  have p: "pending ?s = pending s @ [(nextTimer s, Debouncer obj task (butlast debounceArgs))]"
    by (simp add: e)
  have dm: "\<And>r'. debounceMaps ?s r' =
      (if r' = r then AList.update name ?e (debounceMaps s r) else debounceMaps s r')"
    by (simp add: e)
  have 1: "ids_ok ?s"
    using a(1) by (fastforce simp: ids_ok_def p e less_Suc_eq)
  have 2: "registry_ok ?s"
    using a(2) registry_ok_frame [of ?s s] by (simp add: e)
  have 3: "jobs_ok ?s"
    unfolding jobs_ok_def
  proof (clarify)
    fix t j
    assume "(t, j) \<in> set (pending ?s)"
    then consider (new) "t = nextTimer s" "j = Debouncer obj task (butlast debounceArgs)"
      | (old) "(t, j) \<in> set (pending s)" "\<not> is_debouncer_of obj task j"
      using find_debouncer_None [OF None] by (auto simp: p)
    then show "job_ok ?s t j"
    proof cases
      case new
      have "registeredDebounces ?s obj = Some r"
        using r by (simp add: e)
      moreover have "map_of (debounceMaps ?s r) name = Some ?e"
        by (simp add: dm update_conv')
      ultimately show ?thesis
        using new by (simp add: task')
    next
      case old
      with a(3) have ok: "job_ok s t j"
        by (auto simp: jobs_ok_def)
      show ?thesis
      proof (cases j)
        case (Debouncer tg cb args)
        with ok obtain i2 r2 n2 where cb: "cb = DebouncedTask i2 r2 n2 tg"
          by (cases cb) auto
        from ok Debouncer cb have r2: "registeredDebounces s tg = Some r2"
          and e2: "map_of (debounceMaps s r2) n2 =
            Some \<lparr>debouncedTask = DebouncedTask i2 r2 n2 tg, cancelId = t\<rparr>"
          by auto
        have "\<not> (r2 = r \<and> n2 = name)"
        proof
          assume eq: "r2 = r \<and> n2 = name"
          with r2 inj have "tg = obj" by simp
          with eq e2 task have "task = cb"
            by (auto simp: cb)
          with old(2) Debouncer \<open>tg = obj\<close> show False
            by (simp add: is_debouncer_of_def)
        qed
        then have "map_of (debounceMaps ?s r2) n2 = map_of (debounceMaps s r2) n2"
          by (auto simp: dm update_conv')
        with r2 e2 Debouncer cb show ?thesis
          by (simp add: e)
      next
        case (Later cb v)
        with ok show ?thesis
          by (cases cb) (simp_all add: e)
      next
        case (Scheduled q tg cb args)
        with ok show ?thesis
          by (cases cb) (simp_all add: e)
      next
        case (Throttler tg f)
        then show ?thesis by simp
      qed
    qed
  qed
  have 4: "disposables_ok ?s"
    using a(4) disposables_ok_frame [of ?s s] by (simp add: e)
  have 5: "maps_ok ?s"
    unfolding maps_ok_def
  proof (intro allI impI)
    fix o' r'
    assume "registeredDebounces ?s o' = Some r'"
    then have r': "registeredDebounces s o' = Some r'"
      by (simp add: e)
    with a(5) have d: "distinct (map fst (debounceMaps s r'))"
      and en: "\<And>n p. map_of (debounceMaps s r') n = Some p \<Longrightarrow>
         cancelId p < nextTimer s \<and> (\<exists>i. debouncedTask p = DebouncedTask i r' n o')"
      by (auto simp: maps_ok_def)
    have nt: "nextTimer ?s = Suc (nextTimer s)"
      by (simp add: e)
    show "distinct (map fst (debounceMaps ?s r')) \<and>
        (\<forall>n p. map_of (debounceMaps ?s r') n = Some p \<longrightarrow>
            cancelId p < nextTimer ?s \<and> (\<exists>i. debouncedTask p = DebouncedTask i r' n o'))"
    proof (cases "r' = r")
      case False
      with d en show ?thesis
        by (auto simp: dm nt less_Suc_eq)
    next
      case True
      with r' inj have o': "o' = obj" by simp
      have "distinct (map fst (debounceMaps ?s r'))"
        using d True by (simp add: dm distinct_update)
      moreover have "\<forall>n p. map_of (debounceMaps ?s r') n = Some p \<longrightarrow>
            cancelId p < nextTimer ?s \<and> (\<exists>i. debouncedTask p = DebouncedTask i r' n o')"
      proof (intro allI impI)
        fix n p
        assume m: "map_of (debounceMaps ?s r') n = Some p"
        show "cancelId p < nextTimer ?s \<and> (\<exists>i. debouncedTask p = DebouncedTask i r' n o')"
        proof (cases "n = name")
          case True
          with m \<open>r' = r\<close> have "p = ?e"
            by (simp add: dm update_conv')
          with True \<open>r' = r\<close> o' nt show ?thesis
            by (simp add: task')
        next
          case False
          with m \<open>r' = r\<close> have "map_of (debounceMaps s r') n = Some p"
            by (simp add: dm update_conv')
          from en [OF this] show ?thesis
            by (auto simp: nt less_Suc_eq)
        qed
      qed
      ultimately show ?thesis by simp
    qed
  qed
  from 1 2 3 4 5 show ?thesis
    by (simp add: well_formed_def)
qed

lemma wf_debounceTask:
  assumes "well_formed s"
  shows "well_formed (snd (debounceTask obj nm debounceArgs s))"
proof (cases "fst (debounceTask obj nm debounceArgs s)")
  case (Inl e)
  with assms show ?thesis
    by (simp add: debounceTask_error_state)
next
  case (Inr u)
  then have "debounceTask obj nm debounceArgs s = (Inr u, snd (debounceTask obj nm debounceArgs s))"
    by (simp add: prod_eq_iff)
  from debounceTask_Inr [OF this] obtain name where
    s': "snd (debounceTask obj nm debounceArgs s) =
          (let r = fst (getDebounces_ok obj s); s1 = snd (getDebounces_ok obj s)
           in case map_of (debounceMaps s1 r) name of
                None \<Rightarrow> debounced obj r name (DebouncedTask (nextFn s1) r name obj) debounceArgs
                          (s1\<lparr>nextFn := Suc (nextFn s1)\<rparr>)
              | Some p \<Rightarrow> debounced obj r name (debouncedTask p) debounceArgs s1)"
    by auto
  let ?r = "fst (getDebounces_ok obj s)" and ?s1 = "snd (getDebounces_ok obj s)"
  have wf1: "well_formed ?s1"
    using assms by (rule wf_getDebounces)
  have r: "registeredDebounces ?s1 obj = Some ?r"
    by (rule getDebounces_registered)
  show ?thesis
  proof (cases "map_of (debounceMaps ?s1 ?r) name")
    case None
    have "well_formed (debounced obj ?r name (DebouncedTask (nextFn ?s1) ?r name obj) debounceArgs
        (?s1\<lparr>nextFn := Suc (nextFn ?s1)\<rparr>))"
      using wf1 r None by (intro wf_debounced) simp_all
    with None show ?thesis
      by (simp add: s' Let_def)
  next
    case (Some p)
    have "well_formed (debounced obj ?r name (debouncedTask p) debounceArgs ?s1)"
      using wf1 r Some by (intro wf_debounced [where i = 0]) simp_all
    with Some show ?thesis
      by (simp add: s' Let_def)
  qed
qed

lemma wf_entry_removed:
  assumes wf: "well_formed s"
    and only: "\<And>t' i obj args.
      (t', Debouncer obj (DebouncedTask i r name obj) args) \<in> set (pending s) \<Longrightarrow> t' = t"
    and p: "pending s' = filter (\<lambda>(t', _). t' \<noteq> t) (pending s)"
    and dm: "debounceMaps s' = (debounceMaps s)(r := AList.delete name (debounceMaps s r))"
    and same: "nextTimer s' = nextTimer s" "registeredTimers s' = registeredTimers s"
      "registeredDebounces s' = registeredDebounces s" "nextRef s' = nextRef s"
      "disposables s' = disposables s"
  shows "well_formed s'"
proof -
  from wf have a: "ids_ok s" "registry_ok s" "jobs_ok s" "disposables_ok s" "maps_ok s"
    by (simp_all add: well_formed_def)
  have 1: "ids_ok s'"
    using a(1) by (auto simp: ids_ok_def p same distinct_map_filter)
  have 2: "registry_ok s'"
    using a(2) registry_ok_frame [of s' s] by (simp add: same)
  have 3: "jobs_ok s'"
    unfolding jobs_ok_def
  proof (clarify)
    fix t' j
    assume "(t', j) \<in> set (pending s')"
    then have old: "(t', j) \<in> set (pending s)" and ne: "t' \<noteq> t"
      by (auto simp: p)
    with a(3) have ok: "job_ok s t' j"
      by (auto simp: jobs_ok_def)
    show "job_ok s' t' j"
    proof (cases j)
      case (Debouncer tg cb args)
      with ok obtain i2 r2 n2 where cb: "cb = DebouncedTask i2 r2 n2 tg"
        by (cases cb) auto
      from ok Debouncer cb have r2: "registeredDebounces s tg = Some r2"
        and e2: "map_of (debounceMaps s r2) n2 =
          Some \<lparr>debouncedTask = DebouncedTask i2 r2 n2 tg, cancelId = t'\<rparr>"
        by auto
      have "\<not> (r2 = r \<and> n2 = name)"
        using only [of t' tg i2 args] old ne Debouncer cb by auto
      then have "map_of (debounceMaps s' r2) n2 = map_of (debounceMaps s r2) n2"
        by (auto simp: dm delete_conv')
      with r2 e2 Debouncer cb show ?thesis
        by (simp add: same)
    next
      case (Later cb v)
      with ok show ?thesis
        by (cases cb) (simp_all add: same)
    next
      case (Scheduled q tg cb args)
      with ok show ?thesis
        by (cases cb) (simp_all add: same)
    next
      case (Throttler tg f)
      then show ?thesis by simp
    qed
  qed
  have 4: "disposables_ok s'"
    using a(4) disposables_ok_frame [of s' s] by (simp add: same)
  have 5: "maps_ok s'"
    unfolding maps_ok_def
  proof (intro allI impI)
    fix o' r'
    assume "registeredDebounces s' o' = Some r'"
    then have r': "registeredDebounces s o' = Some r'"
      by (simp add: same)
    with a(5) have d: "distinct (map fst (debounceMaps s r'))"
      and e: "\<And>n p. map_of (debounceMaps s r') n = Some p \<Longrightarrow>
         cancelId p < nextTimer s \<and> (\<exists>i. debouncedTask p = DebouncedTask i r' n o')"
      by (auto simp: maps_ok_def)
    have sub: "map_of (debounceMaps s' r') n = Some p \<Longrightarrow> map_of (debounceMaps s r') n = Some p"
      for n p
      by (auto simp: dm delete_conv' split: if_splits)
    have "distinct (map fst (debounceMaps s' r'))"
      using d by (auto simp: dm distinct_delete)
    moreover have "cancelId p < nextTimer s' \<and> (\<exists>i. debouncedTask p = DebouncedTask i r' n o')"
      if "map_of (debounceMaps s' r') n = Some p" for n p
      using e [OF sub [OF that]] by (simp add: same)
    ultimately show "distinct (map fst (debounceMaps s' r')) \<and>
        (\<forall>n p. map_of (debounceMaps s' r') n = Some p \<longrightarrow>
            cancelId p < nextTimer s' \<and> (\<exists>i. debouncedTask p = DebouncedTask i r' n o'))"
      by blast
  qed
  from 1 2 3 4 5 show ?thesis
    by (simp add: well_formed_def)
qed

lemma wf_cancelDebounce:
  assumes "well_formed s"
  shows "well_formed (snd (cancelDebounce obj name s))"
proof (cases "registeredDebounces s obj")
  case None
  with assms show ?thesis
    by (simp add: cancelDebounce_def)
next
  case (Some r)
  show ?thesis
  proof (cases "map_of (debounceMaps s r) name")
    case None
    with Some assms show ?thesis
      by (simp add: cancelDebounce_def)
  next
    case e: (Some p)
    have "well_formed (cancel (cancelId p) (debounces_delete r name s))"
    proof (rule wf_entry_removed [OF assms, where r = r and name = name and t = "cancelId p"])
      fix t' i obj' args
      assume "(t', Debouncer obj' (DebouncedTask i r name obj') args) \<in> set (pending s)"
      from jobs_ok_job [OF assms this] e show "t' = cancelId p"
        by simp
    qed (simp_all add: fun_eq_iff)
    with Some e show ?thesis
      by (simp add: cancelDebounce_def)
  qed
qed

lemma wf_fire:
  assumes "well_formed s"
  shows "well_formed (snd (fire t s))"
proof (cases "map_of (pending s) t")
  case None
  with assms show ?thesis
    by (simp add: fire_def)
next
  case (Some j)
  then have "(t, j) \<in> set (pending s)"
    by (rule map_of_SomeD)
  from jobs_ok_job [OF assms this] have ok: "job_ok s t j" .
  have c: "well_formed (cancel t s)"
    using assms by (rule wf_cancel)
  show ?thesis
  proof (cases j)
    case (Later cb v)
    with ok Some c show ?thesis
      by (cases cb) (simp_all add: fire_def)
  next
    case (Scheduled q tg cb args)
    with ok Some c show ?thesis
      by (cases cb) (simp_all add: fire_def)
  next
    case (Throttler tg f)
    with Some c show ?thesis
      by (simp add: fire_def)
  next
    case (Debouncer tg cb args)
    with ok obtain i r n where cb: "cb = DebouncedTask i r n tg"
      by (cases cb) auto
    from ok Debouncer cb have e: "map_of (debounceMaps s r) n =
          Some \<lparr>debouncedTask = DebouncedTask i r n tg, cancelId = t\<rparr>"
      by simp
    have "well_formed (debounces_delete r n (cancel t s))"
    proof (rule wf_entry_removed [OF assms, where r = r and name = n and t = t])
      fix t' i' obj' args'
      assume "(t', Debouncer obj' (DebouncedTask i' r n obj') args') \<in> set (pending s)"
      from jobs_ok_job [OF assms this] e show "t' = t"
        by simp
    qed (simp_all add: fun_eq_iff)
    with Some Debouncer cb show ?thesis
      by (simp add: fire_def Let_def split: val.splits)
  qed
qed

subsection \<open>The destruction hook and whole runs\<close>

lemma wf_run_disposable: "well_formed s \<Longrightarrow> well_formed (snd (run_disposable d s))"
  by (cases d) (simp_all add: wf_getTimersDisposable wf_getDebouncesDisposable)

lemma wf_runDisposables:
  assumes "well_formed s"
  shows "well_formed (snd (runDisposables obj s))"
proof -
  have "well_formed (s\<lparr>disposables := (disposables s)(obj := [])\<rparr>)"
    using assms by (rule wf_fewer_disposables) simp
  then show ?thesis
    unfolding runDisposables_def by (rule forEach_invariant) (rule wf_run_disposable)
qed

lemma wf_exec1: "well_formed s \<Longrightarrow> well_formed (exec1 e s)"
  by (cases e)
    (simp_all add: wf_runTask wf_scheduleTask wf_throttleTask wf_debounceTask wf_cancelTask
      wf_cancelDebounce wf_fire wf_runDisposables)

lemma wf_exec: "well_formed s \<Longrightarrow> well_formed (exec evs s)"
  unfolding exec_def by (induction evs arbitrary: s) (simp_all add: wf_exec1)

lemma wf_run: "well_formed (exec evs (init os qs))"
  by (rule wf_exec) (rule wf_init)

section \<open>Concrete runs and tracked timers\<close>

lemma demo_wf: "well_formed demo"
  unfolding demo_def by (rule wf_init)

lemmas run_defs =
  exec_def runTask_def scheduleTask_def throttleTask_def debounceTask_def cancelTask_def
  cancelDebounce_def fire_def runDisposables_def getTimersDisposable_def
  getDebouncesDisposable_def getTimers_def getDebounces_def getTask_def later_def schedule_def
  throttle_def debounce_def is_debouncer_of_def cancel_def add_job_def call_def
  registerDisposable_def and_then_def timers_add_def timers_delete_def timers_clear_def
  debounces_set_def debounces_delete_def set_prop_def set_destroyed_def typeof_function_def
  Number_isInteger_def last_arg_def tracked_def pendingDebouncesOf_def demo_def init_def
  component_def Let_def case_prod_unfold

lemma tracked_frame:
  "registeredTimers s' = registeredTimers s \<Longrightarrow> timerSets s' = timerSets s \<Longrightarrow>
   tracked s' obj = tracked s obj"
  by (simp add: tracked_def split: option.splits)

lemma tracked_getTimers:
  assumes "well_formed s"
  shows "tracked (snd (getTimers_ok obj' s)) obj = tracked s obj"
proof (cases "registeredTimers s obj'")
  case (Some r)
  then show ?thesis by (simp add: getTimers_Some)
next
  case None
  have below: "\<And>r. registeredTimers s obj = Some r \<Longrightarrow> r \<noteq> nextRef s"
    using assms by (auto simp: well_formed_def registry_ok_def)
  show ?thesis
    using None below
    by (auto simp: tracked_def getTimers_ok_def Let_def split: option.splits)
qed

lemma tracked_disposables [simp]: "tracked (s\<lparr>disposables := ds\<rparr>) obj = tracked s obj"
  by (rule tracked_frame) simp_all

lemma pendingDebouncesOf_frame:
  "registeredDebounces s' = registeredDebounces s \<Longrightarrow> debounceMaps s' = debounceMaps s \<Longrightarrow>
   pendingDebouncesOf s' obj = pendingDebouncesOf s obj"
  by (simp add: pendingDebouncesOf_def split: option.splits)

section \<open>Failed calls\<close>

lemma runTask_invalid:
  "isDestroyed (objs s obj) \<or> isl (getTask (objs s obj) taskOrName) \<Longrightarrow>
   \<exists>e. runTask obj taskOrName timeout s = (Inl e, s)"
  by (auto simp: runTask_def split: sum.splits)

lemma scheduleTask_invalid:
  "(\<forall>q. queueName \<noteq> VStr q) \<or> queueName = VStr ''afterRender'' \<or> isDestroyed (objs s obj) \<or>
   isl (getTask (objs s obj) taskOrName) \<Longrightarrow>
   \<exists>e. scheduleTask obj queueName taskOrName args s = (Inl e, s)"
  by (cases queueName) (auto simp: scheduleTask_def split: sum.splits)

lemma throttleTask_invalid:
  "(\<forall>n. taskName \<noteq> VStr n \<or> \<not> typeof_function (props (objs s obj) n)) \<or>
   isDestroyed (objs s obj) \<or> \<not> Number_isInteger (last_arg throttleArgs) \<Longrightarrow>
   \<exists>e. throttleTask obj taskName throttleArgs s = (Inl e, s)"
  by (cases taskName) (auto simp: throttleTask_def)

lemma debounceTask_invalid:
  "(\<forall>n. nm \<noteq> VStr n \<or> \<not> typeof_function (props (objs s obj) n)) \<or>
   isDestroyed (objs s obj) \<or> \<not> Number_isInteger (last_arg debounceArgs) \<Longrightarrow>
   \<exists>e. debounceTask obj nm debounceArgs s = (Inl e, s)"
  by (cases nm) (auto simp: debounceTask_def)

text \<open>A queue name that the run loop does not have: the call throws, whatever else holds.\<close>

lemma scheduleTask_unknown_queue:
  assumes "q \<notin> set (queues s)"
  shows "\<exists>e. fst (scheduleTask obj (VStr q) taskOrName args s) = Inl e"
proof (cases "q = ''afterRender'' \<or> isDestroyed (objs s obj) \<or>
    isl (getTask (objs s obj) taskOrName)")
  case True
  then have "\<exists>e. scheduleTask obj (VStr q) taskOrName args s = (Inl e, s)"
    by (intro scheduleTask_invalid) auto
  then show ?thesis by auto
next
  case False
  then obtain task where "getTask (objs s obj) taskOrName = Inr task"
    by (cases "getTask (objs s obj) taskOrName") auto
  with False assms show ?thesis
    by (simp add: scheduleTask_alive)
qed

lemma scheduleTask_error_effect:
  assumes wf: "well_formed s" and e: "fst (scheduleTask obj queueName taskOrName args s) = Inl e"
  shows "pending (snd (scheduleTask obj queueName taskOrName args s)) = pending s"
    and "nextTimer (snd (scheduleTask obj queueName taskOrName args s)) = nextTimer s"
    and "calls (snd (scheduleTask obj queueName taskOrName args s)) = calls s"
    and "tracked (snd (scheduleTask obj queueName taskOrName args s)) obj' = tracked s obj'"
    and "pendingDebouncesOf (snd (scheduleTask obj queueName taskOrName args s)) obj' =
      pendingDebouncesOf s obj'"
    and "(\<forall>q. queueName = VStr q \<longrightarrow> q \<in> set (queues s)) \<or> registeredTimers s obj \<noteq> None \<Longrightarrow>
      snd (scheduleTask obj queueName taskOrName args s) = s"
proof -
  let ?s' = "snd (scheduleTask obj queueName taskOrName args s)"
  from scheduleTask_error_cases [OF e] have c: "?s' = s \<or> ?s' = snd (getTimers_ok obj s)"
    by blast
  then show "pending ?s' = pending s" "nextTimer ?s' = nextTimer s" "calls ?s' = calls s"
    by auto
  from c show "tracked ?s' obj' = tracked s obj'"
    by (auto simp: tracked_getTimers [OF wf])
  from c show "pendingDebouncesOf ?s' obj' = pendingDebouncesOf s obj'"
    by (auto intro: pendingDebouncesOf_frame)
  show "?s' = s"
    if "(\<forall>q. queueName = VStr q \<longrightarrow> q \<in> set (queues s)) \<or> registeredTimers s obj \<noteq> None"
    using that scheduleTask_error_cases [OF e] by (auto simp: getTimers_Some)
qed

text \<open>
  C9, as the code has it. A call of a scheduling entry point that throws has registered
  no timer: the run loop's jobs and its handle counter, every owner's tracked timers and
  debounce entries and the trace of invocations are as before the call. A failed
  \<^verbatim>\<open>runTask\<close>, \<^verbatim>\<open>throttleTask\<close> or \<^verbatim>\<open>debounceTask\<close> leaves the whole state
  unchanged, and so does a failed \<^verbatim>\<open>scheduleTask\<close> when the queue name is one of the
  run loop's or the owner has a timer set already. And a call whose arguments fail a
  check (a destroyed owner, a task or task name that does not resolve to a function, a
  queue name that is not a string, is \<^verbatim>\<open>'afterRender'\<close> or is not a queue of the run
  loop, a trailing wait that is not an integer) does throw, with the state unchanged
  when the check is an assertion of the entry point.
\<close>

theorem failed_call_registers_no_timer:
  assumes "well_formed s"
  shows
   "(fst (runTask obj taskOrName timeout s) = Inl e1 \<longrightarrow>
      snd (runTask obj taskOrName timeout s) = s) \<and>
    (fst (throttleTask obj taskName throttleArgs s) = Inl e3 \<longrightarrow>
      snd (throttleTask obj taskName throttleArgs s) = s) \<and>
    (fst (debounceTask obj nm debounceArgs s) = Inl e4 \<longrightarrow>
      snd (debounceTask obj nm debounceArgs s) = s) \<and>
    (fst (scheduleTask obj queueName taskOrName args s) = Inl e2 \<longrightarrow>
      pending (snd (scheduleTask obj queueName taskOrName args s)) = pending s \<and>
      nextTimer (snd (scheduleTask obj queueName taskOrName args s)) = nextTimer s \<and>
      calls (snd (scheduleTask obj queueName taskOrName args s)) = calls s \<and>
      (\<forall>obj'. tracked (snd (scheduleTask obj queueName taskOrName args s)) obj' =
         tracked s obj') \<and>
      (\<forall>obj'. pendingDebouncesOf (snd (scheduleTask obj queueName taskOrName args s)) obj' =
         pendingDebouncesOf s obj') \<and>
      ((\<forall>q. queueName = VStr q \<longrightarrow> q \<in> set (queues s)) \<or> registeredTimers s obj \<noteq> None \<longrightarrow>
         snd (scheduleTask obj queueName taskOrName args s) = s)) \<and>
    (isDestroyed (objs s obj) \<or> isl (getTask (objs s obj) taskOrName) \<longrightarrow>
      (\<exists>e. runTask obj taskOrName timeout s = (Inl e, s))) \<and>
    ((\<forall>q. queueName \<noteq> VStr q) \<or> queueName = VStr ''afterRender'' \<or>
     isDestroyed (objs s obj) \<or> isl (getTask (objs s obj) taskOrName) \<longrightarrow>
      (\<exists>e. scheduleTask obj queueName taskOrName args s = (Inl e, s))) \<and>
    (\<forall>q. queueName = VStr q \<and> q \<notin> set (queues s) \<longrightarrow>
      (\<exists>e. fst (scheduleTask obj queueName taskOrName args s) = Inl e)) \<and>
    ((\<forall>n. taskName \<noteq> VStr n \<or> \<not> typeof_function (props (objs s obj) n)) \<or>
     isDestroyed (objs s obj) \<or> \<not> Number_isInteger (last_arg throttleArgs) \<longrightarrow>
      (\<exists>e. throttleTask obj taskName throttleArgs s = (Inl e, s))) \<and>
    ((\<forall>n. nm \<noteq> VStr n \<or> \<not> typeof_function (props (objs s obj) n)) \<or>
     isDestroyed (objs s obj) \<or> \<not> Number_isInteger (last_arg debounceArgs) \<longrightarrow>
      (\<exists>e. debounceTask obj nm debounceArgs s = (Inl e, s)))"
proof -
  have 1: "snd (runTask obj taskOrName timeout s) = s"
    if "fst (runTask obj taskOrName timeout s) = Inl e1"
    using that by (rule runTask_error_state)
  have 2: "snd (throttleTask obj taskName throttleArgs s) = s"
    if "fst (throttleTask obj taskName throttleArgs s) = Inl e3"
    using that by (rule throttleTask_error_state)
  have 3: "snd (debounceTask obj nm debounceArgs s) = s"
    if "fst (debounceTask obj nm debounceArgs s) = Inl e4"
    using that by (rule debounceTask_error_state)
  have 4: "pending (snd (scheduleTask obj queueName taskOrName args s)) = pending s \<and>
      nextTimer (snd (scheduleTask obj queueName taskOrName args s)) = nextTimer s \<and>
      calls (snd (scheduleTask obj queueName taskOrName args s)) = calls s \<and>
      (\<forall>obj'. tracked (snd (scheduleTask obj queueName taskOrName args s)) obj' =
         tracked s obj') \<and>
      (\<forall>obj'. pendingDebouncesOf (snd (scheduleTask obj queueName taskOrName args s)) obj' =
         pendingDebouncesOf s obj') \<and>
      ((\<forall>q. queueName = VStr q \<longrightarrow> q \<in> set (queues s)) \<or> registeredTimers s obj \<noteq> None \<longrightarrow>
         snd (scheduleTask obj queueName taskOrName args s) = s)"
    if e: "fst (scheduleTask obj queueName taskOrName args s) = Inl e2"
    using scheduleTask_error_effect [OF assms e] by blast
  have 5: "\<exists>e. runTask obj taskOrName timeout s = (Inl e, s)"
    if "isDestroyed (objs s obj) \<or> isl (getTask (objs s obj) taskOrName)"
    using that by (rule runTask_invalid)
  have 6: "\<exists>e. scheduleTask obj queueName taskOrName args s = (Inl e, s)"
    if "(\<forall>q. queueName \<noteq> VStr q) \<or> queueName = VStr ''afterRender'' \<or>
      isDestroyed (objs s obj) \<or> isl (getTask (objs s obj) taskOrName)"
    using that by (rule scheduleTask_invalid)
  have 7: "\<forall>q. queueName = VStr q \<and> q \<notin> set (queues s) \<longrightarrow>
      (\<exists>e. fst (scheduleTask obj queueName taskOrName args s) = Inl e)"
    using scheduleTask_unknown_queue by blast
  have 8: "\<exists>e. throttleTask obj taskName throttleArgs s = (Inl e, s)"
    if "(\<forall>n. taskName \<noteq> VStr n \<or> \<not> typeof_function (props (objs s obj) n)) \<or>
      isDestroyed (objs s obj) \<or> \<not> Number_isInteger (last_arg throttleArgs)"
    using that by (rule throttleTask_invalid)
  have 9: "\<exists>e. debounceTask obj nm debounceArgs s = (Inl e, s)"
    if "(\<forall>n. nm \<noteq> VStr n \<or> \<not> typeof_function (props (objs s obj) n)) \<or>
      isDestroyed (objs s obj) \<or> \<not> Number_isInteger (last_arg debounceArgs)"
    using that by (rule debounceTask_invalid)
  from 1 2 3 4 5 6 7 8 9 show ?thesis
    by blast
qed

theorem failed_call_registers_no_timer_witness:
  "fst (runTask 0 (VStr ''missing'') (VInt 0) demo) = Inl InvalidTaskError \<and>
   snd (runTask 0 (VStr ''missing'') (VInt 0) demo) = demo \<and>
   fst (throttleTask 0 (VStr ''doStuff'') [VStr ''bad''] demo) = Inl InvalidDelayError \<and>
   snd (throttleTask 0 (VStr ''doStuff'') [VStr ''bad''] demo) = demo \<and>
   fst (debounceTask 1 (VStr ''doStuff'') [VInt 5] demo) = Inl DestroyedOwnerError \<and>
   snd (debounceTask 1 (VStr ''doStuff'') [VInt 5] demo) = demo \<and>
   fst (scheduleTask 0 (VInt 3) (VStr ''missing'') [] demo) = Inl InvalidQueueError \<and>
   snd (scheduleTask 0 (VInt 3) (VStr ''missing'') [] demo) = demo \<and>
   fst (scheduleTask 0 (VStr ''bogus'') (VStr ''run'') [] demo) = Inl InvalidQueueError \<and>
   pending (snd (scheduleTask 0 (VStr ''bogus'') (VStr ''run'') [] demo)) = [] \<and>
   tracked (snd (scheduleTask 0 (VStr ''bogus'') (VStr ''run'') [] demo)) 0 = []"
proof -
  have r: "fst (runTask 0 (VStr ''missing'') (VInt 0) demo) = Inl InvalidTaskError"
    by (simp add: runTask_def getTask_def demo_def init_def component_def)
  have q: "fst (scheduleTask 0 (VInt 3) (VStr ''missing'') [] demo) = Inl InvalidQueueError"
    by (simp add: scheduleTask_def)
  have q3: "\<forall>q. VInt 3 = VStr q \<longrightarrow> q \<in> set (queues demo)"
    by simp
  have b: "fst (scheduleTask 0 (VStr ''bogus'') (VStr ''run'') [] demo) = Inl InvalidQueueError"
    by (simp add: run_defs)
  have th: "fst (throttleTask 0 (VStr ''doStuff'') [VStr ''bad''] demo) = Inl InvalidDelayError"
    by (simp add: throttleTask_def typeof_function_def Number_isInteger_def last_arg_def
        demo_def init_def component_def)
  have d: "fst (debounceTask 1 (VStr ''doStuff'') [VInt 5] demo) = Inl DestroyedOwnerError"
    by (simp add: debounceTask_def typeof_function_def demo_def init_def component_def)
  have p0: "pending demo = []" "tracked demo 0 = []"
    by (simp_all add: demo_def init_def tracked_def)
  note A = failed_call_registers_no_timer [OF demo_wf, where obj = 0
      and taskOrName = "VStr ''missing''" and timeout = "VInt 0" and ?e1.0 = InvalidTaskError
      and queueName = "VInt 3" and args = "[]" and ?e2.0 = InvalidQueueError
      and taskName = "VStr ''doStuff''" and throttleArgs = "[VStr ''bad'']"
      and ?e3.0 = InvalidDelayError]
  note B = failed_call_registers_no_timer [OF demo_wf, where obj = 1
      and nm = "VStr ''doStuff''" and debounceArgs = "[VInt 5]"
      and ?e4.0 = DestroyedOwnerError]
  note C = failed_call_registers_no_timer [OF demo_wf, where obj = 0
      and taskOrName = "VStr ''run''" and queueName = "VStr ''bogus''" and args = "[]"
      and ?e2.0 = InvalidQueueError]
  have 1: "snd (runTask 0 (VStr ''missing'') (VInt 0) demo) = demo"
    using A r by blast
  have 2: "snd (throttleTask 0 (VStr ''doStuff'') [VStr ''bad''] demo) = demo"
    using A th by blast
  have 3: "snd (debounceTask 1 (VStr ''doStuff'') [VInt 5] demo) = demo"
    using B d by blast
  have 4: "snd (scheduleTask 0 (VInt 3) (VStr ''missing'') [] demo) = demo"
    using A q q3 by blast
  have 5: "pending (snd (scheduleTask 0 (VStr ''bogus'') (VStr ''run'') [] demo)) = pending demo"
    "tracked (snd (scheduleTask 0 (VStr ''bogus'') (VStr ''run'') [] demo)) 0 = tracked demo 0"
    using C b by blast+
  from r 1 th 2 d 3 q 4 b 5 show ?thesis
    by (simp add: p0)
qed

text \<open>
  C9 as stated fails: \<^verbatim>\<open>scheduleTask(obj, 'bogus', 'run')\<close> on a live owner that has no
  timer set passes the assertions of \<^verbatim>\<open>scheduleTask\<close>; \<^verbatim>\<open>getTimers\<close> makes the
  owner's set, puts it in the registry and registers the disposable; then the run loop
  refuses the queue. The call throws, and the registry entry and the disposable stay.
\<close>

theorem unknown_queue_leaves_timer_set:
  "fst (scheduleTask 0 (VStr ''bogus'') (VStr ''run'') [] demo) = Inl InvalidQueueError \<and>
   registeredTimers demo 0 = None \<and> disposables demo 0 = [] \<and>
   registeredTimers (snd (scheduleTask 0 (VStr ''bogus'') (VStr ''run'') [] demo)) 0 = Some 0 \<and>
   disposables (snd (scheduleTask 0 (VStr ''bogus'') (VStr ''run'') [] demo)) 0 =
     [TimersDisposable 0 0] \<and>
   snd (scheduleTask 0 (VStr ''bogus'') (VStr ''run'') [] demo) \<noteq> demo"
proof -
  let ?s' = "snd (scheduleTask 0 (VStr ''bogus'') (VStr ''run'') [] demo)"
  have 1: "fst (scheduleTask 0 (VStr ''bogus'') (VStr ''run'') [] demo) = Inl InvalidQueueError"
    by (simp add: run_defs)
  have 2: "registeredTimers demo 0 = None" "disposables demo 0 = []"
    by (simp_all add: demo_def init_def)
  have 3: "registeredTimers ?s' 0 = Some 0"
    by (simp add: run_defs)
  have 4: "disposables ?s' 0 = [TimersDisposable 0 0]"
    by (simp add: run_defs)
  from 2 3 have "?s' \<noteq> demo"
    by auto
  with 1 2 3 4 show ?thesis
    by blast
qed

section \<open>A destroyed owner\<close>

text \<open>
  C5. On an owner whose \<^verbatim>\<open>isDestroyed\<close> is true each scheduling entry point raises an
  error and leaves the state as it was: nothing is registered and the call is not a
  silent no-op. \<^verbatim>\<open>runTask\<close> checks the owner first; \<^verbatim>\<open>scheduleTask\<close>,
  \<^verbatim>\<open>throttleTask\<close> and \<^verbatim>\<open>debounceTask\<close> check the queue or the task name first, and
  raise \<open>DestroyedOwnerError\<close> when those checks pass.
\<close>

theorem destroyed_owner_is_refused:
  assumes "isDestroyed (objs s obj)"
  shows "runTask obj taskOrName timeout s = (Inl DestroyedOwnerError, s) \<and>
    (\<exists>e. scheduleTask obj queueName taskOrName args s = (Inl e, s)) \<and>
    (\<exists>e. throttleTask obj taskName throttleArgs s = (Inl e, s)) \<and>
    (\<exists>e. debounceTask obj nm debounceArgs s = (Inl e, s)) \<and>
    (\<forall>q. queueName = VStr q \<and> q \<noteq> ''afterRender'' \<longrightarrow>
       scheduleTask obj queueName taskOrName args s = (Inl DestroyedOwnerError, s)) \<and>
    (\<forall>name. taskName = VStr name \<and> typeof_function (props (objs s obj) name) \<longrightarrow>
       throttleTask obj taskName throttleArgs s = (Inl DestroyedOwnerError, s)) \<and>
    (\<forall>name. nm = VStr name \<and> typeof_function (props (objs s obj) name) \<longrightarrow>
       debounceTask obj nm debounceArgs s = (Inl DestroyedOwnerError, s))"
proof -
  have 1: "runTask obj taskOrName timeout s = (Inl DestroyedOwnerError, s)"
    using assms by (simp add: runTask_def)
  have 2: "\<exists>e. scheduleTask obj queueName taskOrName args s = (Inl e, s)"
    using assms by (cases queueName) (simp_all add: scheduleTask_def)
  have 3: "\<exists>e. throttleTask obj taskName throttleArgs s = (Inl e, s)"
    using assms by (cases taskName) (simp_all add: throttleTask_def)
  have 4: "\<exists>e. debounceTask obj nm debounceArgs s = (Inl e, s)"
    using assms by (cases nm) (simp_all add: debounceTask_def)
  have 5: "\<forall>q. queueName = VStr q \<and> q \<noteq> ''afterRender'' \<longrightarrow>
       scheduleTask obj queueName taskOrName args s = (Inl DestroyedOwnerError, s)"
    using assms by (simp add: scheduleTask_def)
  have 6: "\<forall>name. taskName = VStr name \<and> typeof_function (props (objs s obj) name) \<longrightarrow>
       throttleTask obj taskName throttleArgs s = (Inl DestroyedOwnerError, s)"
    using assms by (simp add: throttleTask_def)
  have 7: "\<forall>name. nm = VStr name \<and> typeof_function (props (objs s obj) name) \<longrightarrow>
       debounceTask obj nm debounceArgs s = (Inl DestroyedOwnerError, s)"
    using assms by (simp add: debounceTask_def)
  from 1 2 3 4 5 6 7 show ?thesis by blast
qed

theorem destroyed_owner_is_refused_witness:
  "isDestroyed (objs demo 1) \<and>
   runTask 1 (VStr ''run'') (VInt 0) demo = (Inl DestroyedOwnerError, demo) \<and>
   scheduleTask 1 (VStr ''actions'') (VStr ''run'') [] demo = (Inl DestroyedOwnerError, demo) \<and>
   throttleTask 1 (VStr ''doStuff'') [VInt 5] demo = (Inl DestroyedOwnerError, demo) \<and>
   debounceTask 1 (VStr ''doStuff'') [VInt 5] demo = (Inl DestroyedOwnerError, demo)"
proof -
  have d: "isDestroyed (objs demo 1)"
    by (simp add: demo_def init_def component_def)
  have f: "typeof_function (props (objs demo 1) ''doStuff'')"
    by (simp add: demo_def init_def component_def typeof_function_def)
  from d f
    destroyed_owner_is_refused [OF d, where taskOrName = "VStr ''run''"
      and timeout = "VInt 0" and queueName = "VStr ''actions''" and args = "[]"
      and taskName = "VStr ''doStuff''" and throttleArgs = "[VInt 5]"
      and nm = "VStr ''doStuff''" and debounceArgs = "[VInt 5]"]
  show ?thesis by simp
qed

section \<open>Validation of the wait and of the queue\<close>

lemma throttleTask_ok:
  assumes "props (objs s obj) name = VFun f" "\<not> isDestroyed (objs s obj)"
    "Number_isInteger (last_arg throttleArgs)"
  shows "\<exists>t s'. throttleTask obj (VStr name) throttleArgs s = (Inr t, s')"
proof -
  have "props (objs (snd (getTimers_ok obj s)) obj) name = VFun f"
    using assms(1) by simp
  then obtain t s2 where "throttle obj name throttleArgs (snd (getTimers_ok obj s)) = (Inr t, s2)"
    using throttle_ok by blast
  with assms show ?thesis
    by (simp add: throttleTask_alive typeof_function_def)
qed

lemma debounceTask_ok:
  assumes "typeof_function (props (objs s obj) name)" "\<not> isDestroyed (objs s obj)"
    "Number_isInteger (last_arg debounceArgs)"
  shows "\<exists>s'. debounceTask obj (VStr name) debounceArgs s = (Inr (), s')"
  using assms by (simp add: debounceTask_alive)

text \<open>
  C3, as the code has it. The check on the trailing argument is
  \<^verbatim>\<open>Number.isInteger\<close>. When it is not an integer, \<^verbatim>\<open>debounceTask\<close> and
  \<^verbatim>\<open>throttleTask\<close> raise an error and change nothing; when the name is a string that
  names a function of a live owner, the calls raise \<open>InvalidDelayError\<close> exactly when
  the trailing argument is not an integer, and succeed otherwise, a negative integer
  included.
\<close>

theorem wait_must_be_integer:
  "(\<not> Number_isInteger (last_arg waitArgs) \<longrightarrow>
      (\<exists>e. debounceTask obj nm waitArgs s = (Inl e, s)) \<and>
      (\<exists>e. throttleTask obj nm waitArgs s = (Inl e, s))) \<and>
   (nm = VStr name \<and> typeof_function (props (objs s obj) name) \<and> \<not> isDestroyed (objs s obj) \<longrightarrow>
      (if Number_isInteger (last_arg waitArgs)
       then (\<exists>s'. debounceTask obj nm waitArgs s = (Inr (), s')) \<and>
            (\<exists>t s'. throttleTask obj nm waitArgs s = (Inr t, s'))
       else debounceTask obj nm waitArgs s = (Inl InvalidDelayError, s) \<and>
            throttleTask obj nm waitArgs s = (Inl InvalidDelayError, s)))"
proof (intro conjI impI)
  assume "\<not> Number_isInteger (last_arg waitArgs)"
  then show "\<exists>e. debounceTask obj nm waitArgs s = (Inl e, s)"
    by (cases nm) (simp_all add: debounceTask_def)
next
  assume "\<not> Number_isInteger (last_arg waitArgs)"
  then show "\<exists>e. throttleTask obj nm waitArgs s = (Inl e, s)"
    by (cases nm) (simp_all add: throttleTask_def)
next
  assume a: "nm = VStr name \<and> typeof_function (props (objs s obj) name) \<and>
    \<not> isDestroyed (objs s obj)"
  show "if Number_isInteger (last_arg waitArgs)
       then (\<exists>s'. debounceTask obj nm waitArgs s = (Inr (), s')) \<and>
            (\<exists>t s'. throttleTask obj nm waitArgs s = (Inr t, s'))
       else debounceTask obj nm waitArgs s = (Inl InvalidDelayError, s) \<and>
            throttleTask obj nm waitArgs s = (Inl InvalidDelayError, s)"
  proof (cases "Number_isInteger (last_arg waitArgs)")
    case True
    from a obtain f where "props (objs s obj) name = VFun f"
      by (auto simp: typeof_function_def split: val.splits)
    with a True show ?thesis
      using throttleTask_ok [of s obj name f waitArgs] debounceTask_ok [of s obj name waitArgs]
      by simp
  next
    case False
    with a show ?thesis
      by (simp add: debounceTask_def throttleTask_def)
  qed
qed

theorem wait_must_be_integer_witness:
  "debounceTask 0 (VStr ''doStuff'') [VStr ''bad''] demo = (Inl InvalidDelayError, demo) \<and>
   throttleTask 0 (VStr ''doStuff'') [VStr ''bad''] demo = (Inl InvalidDelayError, demo) \<and>
   debounceTask 0 (VStr ''doStuff'') [] demo = (Inl InvalidDelayError, demo) \<and>
   (\<exists>s'. debounceTask 0 (VStr ''doStuff'') [VInt 5] demo = (Inr (), s'))"
proof -
  have a: "typeof_function (props (objs demo 0) ''doStuff'') \<and> \<not> isDestroyed (objs demo 0)"
    by (simp add: demo_def init_def component_def typeof_function_def)
  have b: "\<not> Number_isInteger (last_arg [VStr ''bad''])" "\<not> Number_isInteger (last_arg [])"
    "Number_isInteger (last_arg [VInt 5])"
    by (simp_all add: Number_isInteger_def last_arg_def)
  from a b
    wait_must_be_integer [of "[VStr ''bad'']" 0 "VStr ''doStuff''" demo "''doStuff''"]
    wait_must_be_integer [of "[]" 0 "VStr ''doStuff''" demo "''doStuff''"]
    wait_must_be_integer [of "[VInt 5]" 0 "VStr ''doStuff''" demo "''doStuff''"]
  show ?thesis by simp
qed

text \<open>
  C3 as stated fails: a negative integer passes \<^verbatim>\<open>Number.isInteger\<close>, so
  \<^verbatim>\<open>debounceTask(obj, 'doStuff', -5)\<close> and \<^verbatim>\<open>throttleTask(obj, 'doStuff', -5)\<close> return
  normally.
\<close>

theorem negative_wait_is_accepted:
  "fst (debounceTask 0 (VStr ''doStuff'') [VInt (- 5)] demo) = Inr () \<and>
   fst (throttleTask 0 (VStr ''doStuff'') [VInt (- 5)] demo) = Inr 0"
  by (simp add: run_defs)

lemma tracked_getTimers_self: "tracked (snd (getTimers_ok obj s)) obj = tracked s obj"
  by (auto simp: tracked_def getTimers_ok_def push_disposable_def Let_def split: option.splits)

text \<open>
  C4. \<^verbatim>\<open>scheduleTask\<close> throws \<open>InvalidQueueError\<close> when the queue name is not a string
  and \<open>ReservedQueueError\<close> when it is \<^verbatim>\<open>'afterRender'\<close>, and changes nothing. A string
  that is not the name of a queue of the run loop is refused as well: the call throws and
  no timer is registered; the error is \<open>InvalidQueueError\<close>, thrown by the run loop's
  \<^verbatim>\<open>schedule\<close>, when the owner is live and the task valid. So the empty string is
  rejected, the run loop having no queue of that name. With the name of a queue other
  than \<^verbatim>\<open>'afterRender'\<close>, a live owner and a valid task, the call succeeds.
\<close>

theorem queue_name_validation:
  "((\<forall>q. queueName \<noteq> VStr q) \<longrightarrow>
      scheduleTask obj queueName taskOrName args s = (Inl InvalidQueueError, s)) \<and>
   (queueName = VStr ''afterRender'' \<longrightarrow>
      scheduleTask obj queueName taskOrName args s = (Inl ReservedQueueError, s)) \<and>
   (queueName = VStr q \<and> q \<notin> set (queues s) \<longrightarrow>
      (\<exists>e. fst (scheduleTask obj queueName taskOrName args s) = Inl e) \<and>
      pending (snd (scheduleTask obj queueName taskOrName args s)) = pending s \<and>
      tracked (snd (scheduleTask obj queueName taskOrName args s)) obj = tracked s obj \<and>
      (q \<noteq> ''afterRender'' \<and> \<not> isDestroyed (objs s obj) \<and>
       \<not> isl (getTask (objs s obj) taskOrName) \<longrightarrow>
         fst (scheduleTask obj queueName taskOrName args s) = Inl InvalidQueueError)) \<and>
   ([] \<notin> set (queues s) \<longrightarrow>
      (\<exists>e. fst (scheduleTask obj (VStr []) taskOrName args s) = Inl e)) \<and>
   (queueName = VStr q \<and> q \<in> set (queues s) \<and> q \<noteq> ''afterRender'' \<and>
    \<not> isDestroyed (objs s obj) \<and> getTask (objs s obj) taskOrName = Inr task \<longrightarrow>
      (\<exists>t s'. scheduleTask obj queueName taskOrName args s = (Inr t, s')))"
proof -
  have 1: "scheduleTask obj queueName taskOrName args s = (Inl InvalidQueueError, s)"
    if "\<forall>q. queueName \<noteq> VStr q"
    using that by (cases queueName) (simp_all add: scheduleTask_def)
  have 2: "scheduleTask obj queueName taskOrName args s = (Inl ReservedQueueError, s)"
    if "queueName = VStr ''afterRender''"
    using that by (simp add: scheduleTask_def)
  have 3: "(\<exists>e. fst (scheduleTask obj queueName taskOrName args s) = Inl e) \<and>
      pending (snd (scheduleTask obj queueName taskOrName args s)) = pending s \<and>
      tracked (snd (scheduleTask obj queueName taskOrName args s)) obj = tracked s obj \<and>
      (q \<noteq> ''afterRender'' \<and> \<not> isDestroyed (objs s obj) \<and>
       \<not> isl (getTask (objs s obj) taskOrName) \<longrightarrow>
         fst (scheduleTask obj queueName taskOrName args s) = Inl InvalidQueueError)"
    if a: "queueName = VStr q \<and> q \<notin> set (queues s)"
  proof -
    let ?s' = "snd (scheduleTask obj queueName taskOrName args s)"
    from a scheduleTask_unknown_queue [of q s obj taskOrName args]
    obtain e where e: "fst (scheduleTask obj queueName taskOrName args s) = Inl e"
      by auto
    from scheduleTask_error_cases [OF e] have c: "?s' = s \<or> ?s' = snd (getTimers_ok obj s)"
      by blast
    then have "pending ?s' = pending s" "tracked ?s' obj = tracked s obj"
      by (auto simp: tracked_getTimers_self)
    moreover have "fst (scheduleTask obj queueName taskOrName args s) = Inl InvalidQueueError"
      if "q \<noteq> ''afterRender'' \<and> \<not> isDestroyed (objs s obj) \<and>
        \<not> isl (getTask (objs s obj) taskOrName)"
    proof -
      from that obtain task where "getTask (objs s obj) taskOrName = Inr task"
        by (cases "getTask (objs s obj) taskOrName") auto
      with that a show ?thesis
        by (simp add: scheduleTask_alive)
    qed
    ultimately show ?thesis
      using e by blast
  qed
  have 4: "\<exists>e. fst (scheduleTask obj (VStr []) taskOrName args s) = Inl e"
    if "[] \<notin> set (queues s)"
    using that by (rule scheduleTask_unknown_queue)
  have 5: "\<exists>t s'. scheduleTask obj queueName taskOrName args s = (Inr t, s')"
    if "queueName = VStr q \<and> q \<in> set (queues s) \<and> q \<noteq> ''afterRender'' \<and>
      \<not> isDestroyed (objs s obj) \<and> getTask (objs s obj) taskOrName = Inr task"
    using that by (simp add: scheduleTask_alive)
  from 1 2 3 4 5 show ?thesis
    by blast
qed

theorem queue_name_validation_witness:
  "scheduleTask 0 (VInt 3) (VStr ''run'') [] demo = (Inl InvalidQueueError, demo) \<and>
   scheduleTask 0 (VStr ''afterRender'') (VStr ''run'') [] demo = (Inl ReservedQueueError, demo) \<and>
   [] \<notin> set (queues demo) \<and>
   fst (scheduleTask 0 (VStr []) (VStr ''run'') [] demo) = Inl InvalidQueueError \<and>
   pending (snd (scheduleTask 0 (VStr []) (VStr ''run'') [] demo)) = [] \<and>
   tracked (snd (scheduleTask 0 (VStr []) (VStr ''run'') [] demo)) 0 = [] \<and>
   (\<exists>t s'. scheduleTask 0 (VStr ''actions'') (VStr ''run'') [] demo = (Inr t, s'))"
proof -
  have a: "\<not> isDestroyed (objs demo 0)" "getTask (objs demo 0) (VStr ''run'') = Inr 1"
    "\<not> isl (getTask (objs demo 0) (VStr ''run''))"
    by (simp_all add: demo_def init_def component_def getTask_def)
  have q: "[] \<notin> set (queues demo)" "''actions'' \<in> set (queues demo)"
    by (simp_all add: demo_def init_def)
  have p0: "pending demo = []" "tracked demo 0 = []"
    by (simp_all add: demo_def init_def tracked_def)
  note A = queue_name_validation [of "VInt 3" 0 "VStr ''run''" "[]" demo]
  note B = queue_name_validation [of "VStr ''afterRender''" 0 "VStr ''run''" "[]" demo]
  note C = queue_name_validation [of "VStr []" 0 "VStr ''run''" "[]" demo "[]"]
  note D = queue_name_validation [of "VStr ''actions''" 0 "VStr ''run''" "[]" demo "''actions''" 1]
  have 1: "scheduleTask 0 (VInt 3) (VStr ''run'') [] demo = (Inl InvalidQueueError, demo)"
    using A by simp
  have 2: "scheduleTask 0 (VStr ''afterRender'') (VStr ''run'') [] demo =
      (Inl ReservedQueueError, demo)"
    using B by simp
  have 3: "fst (scheduleTask 0 (VStr []) (VStr ''run'') [] demo) = Inl InvalidQueueError"
    "pending (snd (scheduleTask 0 (VStr []) (VStr ''run'') [] demo)) = pending demo"
    "tracked (snd (scheduleTask 0 (VStr []) (VStr ''run'') [] demo)) 0 = tracked demo 0"
    using C a q(1) by simp_all
  have 4: "\<exists>t s'. scheduleTask 0 (VStr ''actions'') (VStr ''run'') [] demo = (Inr t, s')"
    using D a q(2) by simp
  from 1 2 q(1) 3 4 show ?thesis
    by (simp add: p0)
qed

section \<open>Firing a scheduled task\<close>

lemma fresh_not_pending:
  assumes "ids_ok s"
  shows "map_of (pending s) (nextTimer s) = None"
proof (cases "map_of (pending s) (nextTimer s)")
  case (Some j)
  then have "(nextTimer s, j) \<in> set (pending s)"
    by (rule map_of_SomeD)
  with assms show ?thesis
    by (auto simp: ids_ok_def)
qed simp

lemma map_of_add_job:
  "ids_ok s \<Longrightarrow> map_of (pending s @ [(nextTimer s, j)]) t =
     (if t = nextTimer s then Some j else map_of (pending s) t)"
  by (auto simp: fresh_not_pending map_add_def split: option.splits)

lemma runTask_registers:
  assumes wf: "well_formed s" and r: "runTask obj taskOrName timeout s = (Inr t, s1)"
  shows "\<exists>timers task v. getTask (objs s obj) taskOrName = Inr task \<and>
     registeredTimers s1 obj = Some timers \<and> t \<in> set (timerSets s1 timers) \<and>
     map_of (pending s1) t = Some (Later (RunTaskCallback timers t task obj) v)"
proof -
  from runTask_Inr [OF r] obtain task where
    task: "getTask (objs s obj) taskOrName = Inr task" and t: "t = nextTimer s" and
    s1: "s1 = timers_add (fst (getTimers_ok obj s)) t
            (add_job (Later (RunTaskCallback (fst (getTimers_ok obj s)) t task obj)
                       (if timeout = VUndefined then VInt 0 else timeout))
               (snd (getTimers_ok obj s)))"
    by auto
  have "ids_ok s"
    using wf by (simp add: well_formed_def)
  then show ?thesis
    using task t by (simp add: s1 fresh_not_pending map_add_def getTimers_registered)
qed

lemma scheduleTask_registers:
  assumes wf: "well_formed s" and r: "scheduleTask obj queueName taskOrName args s = (Inr t, s1)"
  shows "\<exists>timers task q. getTask (objs s obj) taskOrName = Inr task \<and>
     registeredTimers s1 obj = Some timers \<and> t \<in> set (timerSets s1 timers) \<and>
     map_of (pending s1) t = Some (Scheduled q obj (TaskWrapper timers t task obj) args)"
proof -
  from scheduleTask_Inr [OF r] obtain task q where
    task: "getTask (objs s obj) taskOrName = Inr task" and t: "t = nextTimer s" and
    s1: "s1 = timers_add (fst (getTimers_ok obj s)) t
            (add_job (Scheduled q obj (TaskWrapper (fst (getTimers_ok obj s)) t task obj) args)
               (snd (getTimers_ok obj s)))"
    by auto
  have "ids_ok s"
    using wf by (simp add: well_formed_def)
  then show ?thesis
    using task t by (simp add: s1 fresh_not_pending map_add_def getTimers_registered)
qed

text \<open>
  C6. In a state of a run, a successful \<^verbatim>\<open>runTask\<close> or \<^verbatim>\<open>scheduleTask\<close> leaves the
  returned handle in the owner's tracked set, with the closure outstanding under that
  handle. When an outstanding closure of \<^verbatim>\<open>runTask\<close> or \<^verbatim>\<open>scheduleTask\<close> fires, its
  \<^verbatim>\<open>cancelId\<close> is its own handle and its set is the one the registry holds for its
  owner; it deletes the handle from that set first, and the task is invoked on the owner
  (with the arguments kept by the queue) in the state that results, where the handle is
  no longer tracked; so the handle is absent from the owner's tracked set after the
  firing.
\<close>

theorem fired_task_leaves_tracked_set:
  assumes "well_formed s"
  shows
   "(runTask obj taskOrName timeout s = (Inr t, s1) \<longrightarrow>
       t \<in> set (tracked s1 obj) \<and>
       (\<exists>timers task v. map_of (pending s1) t = Some (Later (RunTaskCallback timers t task obj) v))) \<and>
    (scheduleTask obj queueName taskOrName args s = (Inr t, s2) \<longrightarrow>
       t \<in> set (tracked s2 obj) \<and>
       (\<exists>timers task q.
          map_of (pending s2) t = Some (Scheduled q obj (TaskWrapper timers t task obj) args))) \<and>
    (map_of (pending s) t' = Some (Later (RunTaskCallback timers' c task' obj') v') \<longrightarrow>
       c = t' \<and> registeredTimers s obj' = Some timers' \<and>
       t' \<notin> set (tracked (timers_delete timers' t' (cancel t' s)) obj') \<and>
       fire t' s = (Inr (), call task' obj' [] (timers_delete timers' t' (cancel t' s))) \<and>
       t' \<notin> set (tracked (snd (fire t' s)) obj')) \<and>
    (map_of (pending s) t' = Some (Scheduled q' target (TaskWrapper timers' c task' obj') args') \<longrightarrow>
       c = t' \<and> registeredTimers s obj' = Some timers' \<and>
       t' \<notin> set (tracked (timers_delete timers' t' (cancel t' s)) obj') \<and>
       fire t' s = (Inr (), call task' obj' args' (timers_delete timers' t' (cancel t' s))) \<and>
       t' \<notin> set (tracked (snd (fire t' s)) obj'))"
proof (intro conjI impI)
  assume r: "runTask obj taskOrName timeout s = (Inr t, s1)"
  from runTask_registers [OF assms r]
  show "t \<in> set (tracked s1 obj)"
    and "\<exists>timers task v. map_of (pending s1) t = Some (Later (RunTaskCallback timers t task obj) v)"
    by (auto simp: tracked_def)
next
  assume r: "scheduleTask obj queueName taskOrName args s = (Inr t, s2)"
  from scheduleTask_registers [OF assms r]
  show "t \<in> set (tracked s2 obj)"
    and "\<exists>timers task q.
          map_of (pending s2) t = Some (Scheduled q obj (TaskWrapper timers t task obj) args)"
    by (auto simp: tracked_def)
next
  assume p: "map_of (pending s) t' = Some (Later (RunTaskCallback timers' c task' obj') v')"
  then have "(t', Later (RunTaskCallback timers' c task' obj') v') \<in> set (pending s)"
    by (rule map_of_SomeD)
  from jobs_ok_job [OF assms this] show c: "c = t'" and reg: "registeredTimers s obj' = Some timers'"
    by simp_all
  from reg show 1: "t' \<notin> set (tracked (timers_delete timers' t' (cancel t' s)) obj')"
    by (simp add: tracked_def)
  from p c show 2: "fire t' s = (Inr (), call task' obj' [] (timers_delete timers' t' (cancel t' s)))"
    by (simp add: fire_def)
  from reg show "t' \<notin> set (tracked (snd (fire t' s)) obj')"
    by (simp add: 2 tracked_def)
next
  assume p: "map_of (pending s) t' =
    Some (Scheduled q' target (TaskWrapper timers' c task' obj') args')"
  then have "(t', Scheduled q' target (TaskWrapper timers' c task' obj') args') \<in> set (pending s)"
    by (rule map_of_SomeD)
  from jobs_ok_job [OF assms this] show c: "c = t'" and reg: "registeredTimers s obj' = Some timers'"
    by simp_all
  from reg show 1: "t' \<notin> set (tracked (timers_delete timers' t' (cancel t' s)) obj')"
    by (simp add: tracked_def)
  from p c show 2:
    "fire t' s = (Inr (), call task' obj' args' (timers_delete timers' t' (cancel t' s)))"
    by (simp add: fire_def)
  from reg show "t' \<notin> set (tracked (snd (fire t' s)) obj')"
    by (simp add: 2 tracked_def)
qed

theorem fired_task_leaves_tracked_set_witness:
  "0 \<in> set (tracked (exec [RunTask 0 (VStr ''run'') (VInt 0)] demo) 0) \<and>
   0 \<notin> set (tracked (exec [RunTask 0 (VStr ''run'') (VInt 0), Fire 0] demo) 0) \<and>
   calls (exec [RunTask 0 (VStr ''run'') (VInt 0), Fire 0] demo) = [(1, 0, [])] \<and>
   0 \<in> set (tracked (exec [ScheduleTask 0 (VStr ''actions'') (VStr ''run'') [VStr ''foo'']] demo) 0) \<and>
   0 \<notin> set (tracked
     (exec [ScheduleTask 0 (VStr ''actions'') (VStr ''run'') [VStr ''foo''], Fire 0] demo) 0) \<and>
   calls (exec [ScheduleTask 0 (VStr ''actions'') (VStr ''run'') [VStr ''foo''], Fire 0] demo)
     = [(1, 0, [VStr ''foo''])]"
proof -
  let ?r = "exec [RunTask 0 (VStr ''run'') (VInt 0)] demo"
  let ?q = "exec [ScheduleTask 0 (VStr ''actions'') (VStr ''run'') [VStr ''foo'']] demo"
  have r: "runTask 0 (VStr ''run'') (VInt 0) demo = (Inr 0, ?r)"
    by (simp add: run_defs prod_eq_iff)
  have q: "scheduleTask 0 (VStr ''actions'') (VStr ''run'') [VStr ''foo''] demo = (Inr 0, ?q)"
    by (simp add: run_defs prod_eq_iff)
  have pr: "map_of (pending ?r) 0 = Some (Later (RunTaskCallback 0 0 1 0) (VInt 0))"
    by (simp add: run_defs)
  have pq: "map_of (pending ?q) 0 =
      Some (Scheduled ''actions'' 0 (TaskWrapper 0 0 1 0) [VStr ''foo''])"
    by (simp add: run_defs)
  have fr: "exec [RunTask 0 (VStr ''run'') (VInt 0), Fire 0] demo = snd (fire 0 ?r)"
    by (simp add: exec_def)
  have fq: "exec [ScheduleTask 0 (VStr ''actions'') (VStr ''run'') [VStr ''foo''], Fire 0] demo
      = snd (fire 0 ?q)"
    by (simp add: exec_def)
  have wr: "well_formed ?r" and wq: "well_formed ?q"
    by (simp_all add: wf_exec demo_wf)
  have 1: "0 \<in> set (tracked ?r 0)" and 4: "0 \<in> set (tracked ?q 0)"
    using r q fired_task_leaves_tracked_set [OF demo_wf, of 0 "VStr ''run''" "VInt 0" 0 ?r
      "VStr ''actions''" "[VStr ''foo'']" ?q]
    by blast+
  have 2: "0 \<notin> set (tracked (snd (fire 0 ?r)) 0)"
    and c2: "fire 0 ?r = (Inr (), call 1 0 [] (timers_delete 0 0 (cancel 0 ?r)))"
    using pr fired_task_leaves_tracked_set [OF wr, where t' = 0 and timers' = 0 and c = 0
      and task' = 1 and obj' = 0 and v' = "VInt 0"]
    by blast+
  have 5: "0 \<notin> set (tracked (snd (fire 0 ?q)) 0)"
    and c5: "fire 0 ?q = (Inr (), call 1 0 [VStr ''foo''] (timers_delete 0 0 (cancel 0 ?q)))"
    using pq fired_task_leaves_tracked_set [OF wq, where t' = 0 and timers' = 0 and c = 0
      and task' = 1 and obj' = 0 and q' = "''actions''" and target = 0
      and args' = "[VStr ''foo'']"]
    by blast+
  have 3: "calls (snd (fire 0 ?r)) = [(1, 0, [])]"
    unfolding c2 by (simp add: run_defs)
  have 6: "calls (snd (fire 0 ?q)) = [(1, 0, [VStr ''foo''])]"
    unfolding c5 by (simp add: run_defs)
  from 1 2 3 4 5 6 show ?thesis
    unfolding fr fq by blast
qed

section \<open>A task given by name\<close>

text \<open>
  C1, as the code has it. \<^verbatim>\<open>runTask\<close> and \<^verbatim>\<open>scheduleTask\<close> call \<^verbatim>\<open>getTask\<close> when
  they are called, and the closure keeps the function it returned. So a task given as a
  name is resolved at registration: when the timer fires, in whatever later state the
  job is still outstanding (the named property may have been reassigned), the function
  invoked is the one the property held when \<^verbatim>\<open>runTask\<close> or \<^verbatim>\<open>scheduleTask\<close> was
  called.
\<close>

theorem named_task_is_bound_at_registration:
  assumes "well_formed s" "props (objs s obj) name = VFun f"
  shows
   "(runTask obj (VStr name) timeout s = (Inr t, s1) \<and>
     map_of (pending s') t = map_of (pending s1) t \<longrightarrow>
       fst (fire t s') = Inr () \<and> calls (snd (fire t s')) = calls s' @ [(f, obj, [])]) \<and>
    (scheduleTask obj queueName (VStr name) args s = (Inr t, s2) \<and>
     map_of (pending s') t = map_of (pending s2) t \<longrightarrow>
       fst (fire t s') = Inr () \<and> calls (snd (fire t s')) = calls s' @ [(f, obj, args)])"
proof (intro conjI impI)
  assume a: "runTask obj (VStr name) timeout s = (Inr t, s1) \<and>
     map_of (pending s') t = map_of (pending s1) t"
  from runTask_registers [OF assms(1) conjunct1 [OF a]] assms(2) obtain timers v where
    "map_of (pending s1) t = Some (Later (RunTaskCallback timers t f obj) v)"
    by (auto simp: getTask_def)
  with a have p: "map_of (pending s') t = Some (Later (RunTaskCallback timers t f obj) v)"
    by simp
  from p show "fst (fire t s') = Inr ()"
    by (simp add: fire_def)
  from p show "calls (snd (fire t s')) = calls s' @ [(f, obj, [])]"
    by (simp add: fire_def)
next
  assume a: "scheduleTask obj queueName (VStr name) args s = (Inr t, s2) \<and>
     map_of (pending s') t = map_of (pending s2) t"
  from scheduleTask_registers [OF assms(1) conjunct1 [OF a]] assms(2) obtain timers q where
    "map_of (pending s2) t = Some (Scheduled q obj (TaskWrapper timers t f obj) args)"
    by (auto simp: getTask_def)
  with a have p: "map_of (pending s') t = Some (Scheduled q obj (TaskWrapper timers t f obj) args)"
    by simp
  from p show "fst (fire t s') = Inr ()"
    by (simp add: fire_def)
  from p show "calls (snd (fire t s')) = calls s' @ [(f, obj, args)]"
    by (simp add: fire_def)
qed

theorem named_task_is_bound_at_registration_witness:
  "props (objs demo 0) ''run'' = VFun 1 \<and>
   props (objs (exec [RunTask 0 (VStr ''run'') (VInt 0), SetProp 0 ''run'' (VFun 9)] demo) 0) ''run''
     = VFun 9 \<and>
   calls (exec [RunTask 0 (VStr ''run'') (VInt 0), SetProp 0 ''run'' (VFun 9), Fire 0] demo)
     = [(1, 0, [])] \<and>
   calls (exec [ScheduleTask 0 (VStr ''actions'') (VStr ''run'') [VStr ''foo''],
                SetProp 0 ''run'' (VFun 9), Fire 0] demo)
     = [(1, 0, [VStr ''foo''])]"
proof -
  let ?r = "exec [RunTask 0 (VStr ''run'') (VInt 0)] demo"
  let ?r' = "exec [RunTask 0 (VStr ''run'') (VInt 0), SetProp 0 ''run'' (VFun 9)] demo"
  let ?q = "exec [ScheduleTask 0 (VStr ''actions'') (VStr ''run'') [VStr ''foo'']] demo"
  let ?q' = "exec [ScheduleTask 0 (VStr ''actions'') (VStr ''run'') [VStr ''foo''],
                SetProp 0 ''run'' (VFun 9)] demo"
  have f: "props (objs demo 0) ''run'' = VFun 1"
    by (simp add: demo_def init_def component_def)
  have f': "props (objs ?r' 0) ''run'' = VFun 9"
    by (simp add: exec_def set_prop_def)
  have r: "runTask 0 (VStr ''run'') (VInt 0) demo = (Inr 0, ?r)"
    by (simp add: run_defs prod_eq_iff)
  have q: "scheduleTask 0 (VStr ''actions'') (VStr ''run'') [VStr ''foo''] demo = (Inr 0, ?q)"
    by (simp add: run_defs prod_eq_iff)
  have pr: "map_of (pending ?r') 0 = map_of (pending ?r) 0"
    by (simp add: exec_def)
  have pq: "map_of (pending ?q') 0 = map_of (pending ?q) 0"
    by (simp add: exec_def)
  have cr: "calls ?r' = []" and cq: "calls ?q' = []"
    by (simp_all add: run_defs)
  have fr: "exec [RunTask 0 (VStr ''run'') (VInt 0), SetProp 0 ''run'' (VFun 9), Fire 0] demo
      = snd (fire 0 ?r')"
    by (simp add: exec_def)
  have fq: "exec [ScheduleTask 0 (VStr ''actions'') (VStr ''run'') [VStr ''foo''],
                SetProp 0 ''run'' (VFun 9), Fire 0] demo = snd (fire 0 ?q')"
    by (simp add: exec_def)
  have 1: "calls (snd (fire 0 ?r')) = calls ?r' @ [(1, 0, [])]"
    using r pr named_task_is_bound_at_registration [OF demo_wf f, of "VInt 0" 0 ?r ?r']
    by blast
  have 2: "calls (snd (fire 0 ?q')) = calls ?q' @ [(1, 0, [VStr ''foo''])]"
    using q pq named_task_is_bound_at_registration [OF demo_wf f,
        where queueName = "VStr ''actions''" and args = "[VStr ''foo'']" and t = 0
        and ?s2.0 = ?q and s' = ?q']
    by blast
  from f f' 1 2 show ?thesis
    unfolding fr fq cr cq by simp
qed

text \<open>
  C1 as stated fails: \<^verbatim>\<open>runTask(obj, 'run')\<close> is called while \<^verbatim>\<open>obj.run\<close> is function 1,
  \<^verbatim>\<open>obj.run\<close> is then assigned function 9, and the timer fires: function 1 is invoked,
  not the reassigned function 9.
\<close>

theorem reassigned_task_is_not_invoked:
  "props (objs (exec [RunTask 0 (VStr ''run'') (VInt 0), SetProp 0 ''run'' (VFun 9)] demo) 0) ''run''
     = VFun 9 \<and>
   calls (exec [RunTask 0 (VStr ''run'') (VInt 0), SetProp 0 ''run'' (VFun 9), Fire 0] demo)
     \<noteq> [(9, 0, [])] \<and>
   calls (exec [RunTask 0 (VStr ''run'') (VInt 0), SetProp 0 ''run'' (VFun 9), Fire 0] demo)
     = [(1, 0, [])]"
  by (simp add: run_defs)

section \<open>What stays tracked\<close>

lemma tracked_timers_add: "t \<in> set (tracked s obj) \<Longrightarrow> t \<in> set (tracked (timers_add r t' s) obj)"
  by (cases "registeredTimers s obj") (auto simp: tracked_def)

lemma tracked_timers_delete:
  "t \<in> set (tracked s obj) \<Longrightarrow> t' \<noteq> t \<or> registeredTimers s obj \<noteq> Some r \<Longrightarrow>
   t \<in> set (tracked (timers_delete r t' s) obj)"
  by (cases "registeredTimers s obj") (auto simp: tracked_def)

lemma tracked_timers_clear:
  "t \<in> set (tracked s obj) \<Longrightarrow> registeredTimers s obj \<noteq> Some r \<Longrightarrow>
   t \<in> set (tracked (timers_clear r s) obj)"
  by (cases "registeredTimers s obj") (auto simp: tracked_def)

lemma tracked_cancelTask:
  assumes wf: "well_formed s" and t: "t \<in> set (tracked s obj)" and ne: "a \<noteq> WithObj obj t"
  shows "t \<in> set (tracked (snd (cancelTask a s)) obj)"
proof (cases a)
  case (Legacy t')
  with t show ?thesis
    by (simp add: cancelTask_def tracked_frame [of "cancel t' s" s])
next
  case (WithObj obj' t')
  let ?r = "fst (getTimers_ok obj' s)" and ?s1 = "snd (getTimers_ok obj' s)"
  have t1: "t \<in> set (tracked ?s1 obj)"
    using t by (simp add: tracked_getTimers [OF wf])
  have "t' \<noteq> t \<or> registeredTimers ?s1 obj \<noteq> Some ?r"
  proof (cases "t' = t")
    case True
    with ne WithObj have "obj' \<noteq> obj" by simp
    then have "registeredTimers ?s1 obj \<noteq> Some ?r"
      using registry_inj_timers [of ?s1 obj ?r obj'] wf_getTimers [OF wf, of obj']
      by (auto simp: well_formed_def getTimers_registered)
    then show ?thesis ..
  qed simp
  with t1 have "t \<in> set (tracked (timers_delete ?r t' ?s1) obj)"
    by (rule tracked_timers_delete)
  then have "t \<in> set (tracked (cancel t' (timers_delete ?r t' ?s1)) obj)"
    by (simp add: tracked_frame [of "cancel t' (timers_delete ?r t' ?s1)" "timers_delete ?r t' ?s1"])
  with WithObj t1 show ?thesis
    by (simp add: cancelTask_WithObj)
qed

text \<open>Entries of the registries are never replaced.\<close>

lemma registeredTimers_getTimers:
  "registeredTimers s obj = Some r \<Longrightarrow> registeredTimers (snd (getTimers_ok obj' s)) obj = Some r"
  by (auto simp: getTimers_registry split: option.splits)

lemma disposable_ok_disposables [simp]:
  "disposable_ok (s\<lparr>disposables := ds\<rparr>) obj d = disposable_ok s obj d"
  by (rule disposable_ok_frame) simp_all

lemma disposable_ok_cancelTask:
  "disposable_ok s obj d \<Longrightarrow> disposable_ok (snd (cancelTask a s)) obj d"
  by (cases a; cases d)
    (auto simp: cancelTask_WithObj cancelTask_Legacy registeredTimers_getTimers)

lemma tracked_forEach_cancelTask:
  assumes "well_formed s" "t \<in> set (tracked s obj)" "obj' \<noteq> obj" "disposable_ok s obj' d"
  shows "well_formed (snd (forEach (\<lambda>c. cancelTask (WithObj obj' c)) ts s)) \<and>
    t \<in> set (tracked (snd (forEach (\<lambda>c. cancelTask (WithObj obj' c)) ts s)) obj) \<and>
    disposable_ok (snd (forEach (\<lambda>c. cancelTask (WithObj obj' c)) ts s)) obj' d"
proof (rule forEach_invariant
    [where P = "\<lambda>s'. well_formed s' \<and> t \<in> set (tracked s' obj) \<and> disposable_ok s' obj' d"])
  show "well_formed s \<and> t \<in> set (tracked s obj) \<and> disposable_ok s obj' d"
    using assms by simp
next
  fix c s'
  assume p: "well_formed s' \<and> t \<in> set (tracked s' obj) \<and> disposable_ok s' obj' d"
  let ?s = "snd (cancelTask (WithObj obj' c) s')"
  have "well_formed ?s"
    using p by (intro wf_cancelTask) simp
  moreover have "t \<in> set (tracked ?s obj)"
    using p assms(3) by (intro tracked_cancelTask) simp_all
  moreover have "disposable_ok ?s obj' d"
    using p by (intro disposable_ok_cancelTask) simp
  ultimately show "well_formed ?s \<and> t \<in> set (tracked ?s obj) \<and> disposable_ok ?s obj' d"
    by simp
qed

lemma fold_cancel_fields [simp]:
  "registeredTimers (fold (\<lambda>(_, p). cancel (cancelId p)) ps s) = registeredTimers s"
  "registeredDebounces (fold (\<lambda>(_, p). cancel (cancelId p)) ps s) = registeredDebounces s"
  "timerSets (fold (\<lambda>(_, p). cancel (cancelId p)) ps s) = timerSets s"
  "debounceMaps (fold (\<lambda>(_, p). cancel (cancelId p)) ps s) = debounceMaps s"
  "calls (fold (\<lambda>(_, p). cancel (cancelId p)) ps s) = calls s"
  "objs (fold (\<lambda>(_, p). cancel (cancelId p)) ps s) = objs s"
  "nextTimer (fold (\<lambda>(_, p). cancel (cancelId p)) ps s) = nextTimer s"
  "queues (fold (\<lambda>(_, p). cancel (cancelId p)) ps s) = queues s"
  "disposables (fold (\<lambda>(_, p). cancel (cancelId p)) ps s) = disposables s"
  by (induction ps arbitrary: s; simp add: case_prod_unfold)+

lemma getDebouncesDisposable_fields [simp]:
  "registeredTimers (getDebouncesDisposable r s) = registeredTimers s"
  "registeredDebounces (getDebouncesDisposable r s) = registeredDebounces s"
  "timerSets (getDebouncesDisposable r s) = timerSets s"
  "debounceMaps (getDebouncesDisposable r s) = debounceMaps s"
  "calls (getDebouncesDisposable r s) = calls s"
  "objs (getDebouncesDisposable r s) = objs s"
  "nextTimer (getDebouncesDisposable r s) = nextTimer s"
  "queues (getDebouncesDisposable r s) = queues s"
  "disposables (getDebouncesDisposable r s) = disposables s"
  by (simp_all add: getDebouncesDisposable_def)

lemma tracked_run_disposable:
  assumes "well_formed s" "t \<in> set (tracked s obj)" "obj' \<noteq> obj"
    "\<forall>d \<in> set (d # ds). disposable_ok s obj' d"
  shows "t \<in> set (tracked (snd (run_disposable d s)) obj) \<and>
    (\<forall>d' \<in> set ds. disposable_ok (snd (run_disposable d s)) obj' d')"
proof (cases d)
  case (DebouncesDisposable r)
  have "disposable_ok (getDebouncesDisposable r s) obj' d' = disposable_ok s obj' d'" for d'
    by (rule disposable_ok_frame) simp_all
  with assms DebouncesDisposable show ?thesis
    by (simp add: tracked_frame [of "getDebouncesDisposable r s" s])
next
  case (TimersDisposable o2 r)
  with assms(4) have o2: "o2 = obj'" and r: "registeredTimers s obj' = Some r"
    by simp_all
  let ?s = "snd (forEach (\<lambda>c. cancelTask (WithObj obj' c)) (timerSets s r) s)"
  have d: "disposable_ok s obj' d"
    using assms(4) by simp
  have f: "t \<in> set (tracked ?s obj)" and wf': "well_formed ?s"
    using tracked_forEach_cancelTask [OF assms(1-3) d] by simp_all
  have ok: "disposable_ok ?s obj' d'" if "d' \<in> set (d # ds)" for d'
  proof -
    from that assms(4) have "disposable_ok s obj' d'" by blast
    from tracked_forEach_cancelTask [OF assms(1-3) this] show ?thesis by simp
  qed
  from ok [of d] TimersDisposable o2 have r': "registeredTimers ?s obj' = Some r"
    by simp
  have "registeredTimers ?s obj \<noteq> Some r"
    using registry_inj_timers [of ?s obj r obj'] wf' r' assms(3)
    by (auto simp: well_formed_def)
  with f have "t \<in> set (tracked (timers_clear r ?s) obj)"
    by (rule tracked_timers_clear)
  moreover have "disposable_ok (timers_clear r ?s) obj' d' = disposable_ok ?s obj' d'" for d'
    by (rule disposable_ok_frame) simp_all
  ultimately show ?thesis
    using ok f TimersDisposable o2 by (simp add: getTimersDisposable_state Let_def)
qed

lemma tracked_runDisposables:
  assumes wf: "well_formed s" and t: "t \<in> set (tracked s obj)" and ne: "obj' \<noteq> obj"
  shows "t \<in> set (tracked (snd (runDisposables obj' s)) obj)"
proof -
  let ?s = "s\<lparr>disposables := (disposables s)(obj' := [])\<rparr>"
  let ?P = "\<lambda>s'. well_formed s' \<and> t \<in> set (tracked s' obj) \<and>
    (\<forall>d \<in> set (disposables s obj'). disposable_ok s' obj' d)"
  have w: "well_formed ?s"
    using wf by (rule wf_fewer_disposables) simp
  have ok: "\<forall>d \<in> set (disposables s obj'). disposable_ok ?s obj' d"
    using wf by (simp add: well_formed_def disposables_ok_def)
  have "?P (snd (forEach run_disposable (disposables s obj') ?s))"
  proof (rule forEach_invariant [where P = ?P])
    show "?P ?s"
      using w t ok by simp
  next
    fix d s'
    assume d: "d \<in> set (disposables s obj')" and p: "?P s'"
    then have all: "\<forall>d' \<in> set (d # disposables s obj'). disposable_ok s' obj' d'"
      by simp
    from p have "well_formed s'" "t \<in> set (tracked s' obj)"
      by simp_all
    from tracked_run_disposable [OF this ne all] wf_run_disposable [OF this(1), of d]
    show "?P (snd (run_disposable d s'))"
      by simp
  qed
  then show ?thesis
    by (simp add: runDisposables_def)
qed

section \<open>Handles are not issued twice\<close>

lemma extendsI:
  assumes "nextTimer s \<le> nextTimer s'"
    "\<And>t j. (t, j) \<in> set (pending s') \<Longrightarrow> (t, j) \<in> set (pending s) \<or> nextTimer s \<le> t"
  shows "extends s s'"
  unfolding extends_def rearmed_def using assms by blast

lemma extendsD:
  assumes "extends s s'" "(t, j') \<in> set (pending s')"
  shows "(\<exists>j. (t, j) \<in> set (pending s) \<and> rearmed j j') \<or> nextTimer s \<le> t"
  using assms unfolding extends_def by blast

lemma rearmed_trans: "rearmed j j' \<Longrightarrow> rearmed j' j'' \<Longrightarrow> rearmed j j''"
  unfolding rearmed_def by auto

lemma extends_refl [simp]: "extends s s"
  by (rule extendsI) auto

lemma extends_trans:
  assumes 1: "extends s s'" and 2: "extends s' s''"
  shows "extends s s''"
  unfolding extends_def
proof (intro conjI ballI)
  from 1 2 show le: "nextTimer s \<le> nextTimer s''"
    by (simp add: extends_def)
  fix x
  assume x: "x \<in> set (pending s'')"
  obtain t j'' where tj: "x = (t, j'')"
    by (cases x)
  from extendsD [OF 2 x [unfolded tj]]
  have "(\<exists>j. (t, j) \<in> set (pending s) \<and> rearmed j j'') \<or> nextTimer s \<le> t"
  proof
    assume "\<exists>j'. (t, j') \<in> set (pending s') \<and> rearmed j' j''"
    then obtain j' where j': "(t, j') \<in> set (pending s')" "rearmed j' j''"
      by blast
    from extendsD [OF 1 j'(1)] j'(2) show ?thesis
      by (blast intro: rearmed_trans)
  next
    assume "nextTimer s' \<le> t"
    with 1 show ?thesis
      by (simp add: extends_def)
  qed
  then show "case x of (t, j') \<Rightarrow>
      (\<exists>j. (t, j) \<in> set (pending s) \<and> rearmed j j') \<or> nextTimer s \<le> t"
    by (simp add: tj)
qed

lemma extends_frame:
  "pending s' = pending s \<Longrightarrow> nextTimer s' = nextTimer s \<Longrightarrow> extends s s'"
  by (rule extendsI) auto

lemma extends_frame2:
  "pending s'' = pending s' \<Longrightarrow> nextTimer s'' = nextTimer s' \<Longrightarrow> extends s s' \<Longrightarrow> extends s s''"
  by (simp add: extends_def)

lemma extends_cancel: "extends s s' \<Longrightarrow> extends s (cancel t s')"
  by (auto simp: extends_def)

lemma extends_add_job: "extends s s' \<Longrightarrow> extends s (add_job j s')"
  by (auto simp: extends_def)

lemma window_only_extends:
  assumes w: "window_only t s" and e: "extends s s'"
  shows "window_only t s'"
  unfolding window_only_def
proof (intro conjI allI impI)
  from w e show "t < nextTimer s'"
    by (simp add: window_only_def extends_def)
  fix j'
  assume "(t, j') \<in> set (pending s')"
  from extendsD [OF e this] w obtain j where "(t, j) \<in> set (pending s)" "rearmed j j'"
    by (auto simp: window_only_def)
  with w show "\<exists>target f. j' = Throttler target f"
    by (auto simp: window_only_def rearmed_def)
qed

lemma extends_getTimers: "extends s (snd (getTimers_ok obj s))"
  by (rule extends_frame) simp_all

lemma extends_getDebounces: "extends s (snd (getDebounces_ok obj s))"
  by (rule extends_frame) simp_all

lemma extends_runTask: "extends s (snd (runTask obj taskOrName timeout s))"
proof (cases "fst (runTask obj taskOrName timeout s)")
  case (Inl e)
  then show ?thesis by (simp add: runTask_error_state)
next
  case (Inr t)
  then have "runTask obj taskOrName timeout s = (Inr t, snd (runTask obj taskOrName timeout s))"
    by (simp add: prod_eq_iff)
  from runTask_Inr [OF this] obtain task where
    "snd (runTask obj taskOrName timeout s) = timers_add (fst (getTimers_ok obj s)) t
            (add_job (Later (RunTaskCallback (fst (getTimers_ok obj s)) t task obj)
                       (if timeout = VUndefined then VInt 0 else timeout))
               (snd (getTimers_ok obj s)))"
    by auto
  then show ?thesis
    by (intro extendsI) auto
qed

lemma extends_scheduleTask: "extends s (snd (scheduleTask obj queueName taskOrName args s))"
proof (cases "fst (scheduleTask obj queueName taskOrName args s)")
  case (Inl e)
  from scheduleTask_error_cases [OF this] show ?thesis
    by (auto simp: extends_getTimers)
next
  case (Inr t)
  then have "scheduleTask obj queueName taskOrName args s =
      (Inr t, snd (scheduleTask obj queueName taskOrName args s))"
    by (simp add: prod_eq_iff)
  from scheduleTask_Inr [OF this] obtain task q where
    "snd (scheduleTask obj queueName taskOrName args s) = timers_add (fst (getTimers_ok obj s)) t
            (add_job (Scheduled q obj (TaskWrapper (fst (getTimers_ok obj s)) t task obj) args)
               (snd (getTimers_ok obj s)))"
    by auto
  then show ?thesis
    by (intro extendsI) auto
qed

lemma throttle_fields [simp]:
  "objs (snd (throttle target method args s)) = objs s"
  "registeredTimers (snd (throttle target method args s)) = registeredTimers s"
  "registeredDebounces (snd (throttle target method args s)) = registeredDebounces s"
  "timerSets (snd (throttle target method args s)) = timerSets s"
  "debounceMaps (snd (throttle target method args s)) = debounceMaps s"
  "nextRef (snd (throttle target method args s)) = nextRef s"
  "nextFn (snd (throttle target method args s)) = nextFn s"
  "disposables (snd (throttle target method args s)) = disposables s"
  "queues (snd (throttle target method args s)) = queues s"
  by (simp_all add: throttle_def Let_def split: val.splits option.splits)

lemma extends_throttle: "extends s (snd (throttle target method args s))"
  by (rule extendsI) (auto simp: throttle_def Let_def split: val.splits option.splits)

lemma extends_throttleTask: "extends s (snd (throttleTask obj taskName throttleArgs s))"
proof (cases "fst (throttleTask obj taskName throttleArgs s)")
  case (Inl e)
  then show ?thesis by (simp add: throttleTask_error_state)
next
  case (Inr t)
  then have "throttleTask obj taskName throttleArgs s =
      (Inr t, snd (throttleTask obj taskName throttleArgs s))"
    by (simp add: prod_eq_iff)
  from throttleTask_Inr [OF this] obtain name where
    s1: "snd (throttleTask obj taskName throttleArgs s) = timers_add (fst (getTimers_ok obj s)) t
            (snd (throttle obj name throttleArgs (snd (getTimers_ok obj s))))"
    by auto
  have "extends s (snd (throttle obj name throttleArgs (snd (getTimers_ok obj s))))"
    using extends_getTimers extends_throttle by (rule extends_trans)
  then show ?thesis
    unfolding s1 by (rule extends_frame2 [rotated 2]) simp_all
qed

lemma extends_debounce: "extends s (snd (debounce target m args s))"
proof (cases "find (\<lambda>(t, j). is_debouncer_of target m j) (pending s)")
  case None
  then show ?thesis
    by (simp add: debounce_new extends_add_job)
next
  case (Some tj)
  obtain t j where tj: "tj = (t, j)"
    by (cases tj)
  from find_debouncer_Some [OF Some [unfolded tj]] obtain a where
    job: "(t, Debouncer target m a) \<in> set (pending s)"
    by blast
  have "rearmed (Debouncer target m a) (Debouncer target m (butlast args))"
    by (auto simp: rearmed_def)
  with job have 1: "\<exists>j. (t, j) \<in> set (pending s) \<and> rearmed j (Debouncer target m (butlast args))"
    by blast
  have 2: "\<exists>j. (t', j) \<in> set (pending s) \<and> rearmed j j'" if "(t', j') \<in> set (pending s)"
    for t' j'
    using that by (auto simp: rearmed_def)
  show ?thesis
    unfolding debounce_rearm [OF Some [unfolded tj]] extends_def
    using 1 2 by (auto split: if_splits)
qed

lemma debounced_outstanding [simp]:
  "pending (debounced obj r name task args s) = pending (snd (debounce obj task args s))"
  "nextTimer (debounced obj r name task args s) = nextTimer (snd (debounce obj task args s))"
  by (simp_all add: debounced_def)

lemma extends_debounced: "extends s s' \<Longrightarrow> extends s (debounced obj r name task args s')"
  using extends_debounce [of s' obj task args]
  by (auto intro: extends_trans extends_frame2 [rotated 2])

lemma extends_debounceTask: "extends s (snd (debounceTask obj nm debounceArgs s))"
proof (cases "fst (debounceTask obj nm debounceArgs s)")
  case (Inl e)
  then show ?thesis by (simp add: debounceTask_error_state)
next
  case (Inr u)
  then have "debounceTask obj nm debounceArgs s = (Inr u, snd (debounceTask obj nm debounceArgs s))"
    by (simp add: prod_eq_iff)
  from debounceTask_Inr [OF this] obtain name where
    s': "snd (debounceTask obj nm debounceArgs s) =
          (let r = fst (getDebounces_ok obj s); s1 = snd (getDebounces_ok obj s)
           in case map_of (debounceMaps s1 r) name of
                None \<Rightarrow> debounced obj r name (DebouncedTask (nextFn s1) r name obj) debounceArgs
                          (s1\<lparr>nextFn := Suc (nextFn s1)\<rparr>)
              | Some p \<Rightarrow> debounced obj r name (debouncedTask p) debounceArgs s1)"
    by auto
  have "extends s ((snd (getDebounces_ok obj s))\<lparr>nextFn := n\<rparr>)" for n
    by (rule extends_frame) simp_all
  then show ?thesis
    unfolding s' by (simp add: Let_def extends_debounced extends_getDebounces split: option.splits)
qed

lemma extends_cancelTask: "extends s (snd (cancelTask a s))"
proof (cases a)
  case (Legacy t)
  then show ?thesis
    by (simp add: cancelTask_Legacy extends_cancel)
next
  case (WithObj obj t)
  have "extends s ((snd (getTimers_ok obj s))\<lparr>disposables := disposables s\<rparr>)"
    by (rule extends_frame) simp_all
  moreover have "extends s (cancel t (timers_delete (fst (getTimers_ok obj s)) t
      (snd (getTimers_ok obj s))))"
    by (intro extends_cancel extends_frame) simp_all
  ultimately show ?thesis
    using WithObj by (simp add: cancelTask_WithObj)
qed

lemma extends_cancelDebounce: "extends s (snd (cancelDebounce obj name s))"
  by (auto simp: cancelDebounce_def extends_cancel extends_frame split: option.splits)

lemma run_callback_fields [simp]:
  "pending (snd (run_callback cb args s)) = pending s"
  "nextTimer (snd (run_callback cb args s)) = nextTimer s"
  "queues (snd (run_callback cb args s)) = queues s"
  "registeredTimers (snd (run_callback cb args s)) = registeredTimers s"
  "registeredDebounces (snd (run_callback cb args s)) = registeredDebounces s"
  "objs (snd (run_callback cb args s)) = objs s"
  "disposables (snd (run_callback cb args s)) = disposables s"
  by (cases cb; simp add: Let_def split: val.splits)+

lemma extends_fire: "extends s (snd (fire t s))"
proof (cases "map_of (pending s) t")
  case None
  then show ?thesis by (simp add: fire_def)
next
  case (Some j)
  have "extends s (snd (run_callback cb args (cancel t s)))" for cb args
    using extends_cancel [OF extends_refl, of s t] by (rule extends_frame2 [rotated 2]) simp_all
  with Some show ?thesis
    by (cases j) (simp_all add: fire_def extends_cancel)
qed

lemma extends_forEach:
  assumes "\<And>x s'. extends s' (snd (f x s'))"
  shows "extends s (snd (forEach f xs s))"
  by (rule forEach_invariant [where P = "extends s"]) (auto intro: extends_trans assms)

lemma extends_fold_cancel: "extends s (fold (\<lambda>(_, p). cancel (cancelId p)) ps s)"
proof (induction ps arbitrary: s)
  case (Cons p ps)
  show ?case
    using extends_cancel [OF extends_refl, of s "cancelId (snd p)"]
      Cons [of "cancel (cancelId (snd p)) s"]
    by (auto simp: case_prod_unfold intro: extends_trans)
qed simp

lemma extends_run_disposable: "extends s (snd (run_disposable d s))"
proof (cases d)
  case (TimersDisposable obj r)
  let ?sf = "snd (forEach (\<lambda>c. cancelTask (WithObj obj c)) (timerSets s r) s)"
  have f: "extends s ?sf"
    by (rule extends_forEach) (rule extends_cancelTask)
  then have "extends s (timers_clear r ?sf)"
    by (rule extends_frame2 [rotated 2]) simp_all
  with f TimersDisposable show ?thesis
    by (simp add: getTimersDisposable_state Let_def)
next
  case (DebouncesDisposable r)
  then show ?thesis
    by (simp add: getDebouncesDisposable_def extends_fold_cancel)
qed

lemma extends_runDisposables: "extends s (snd (runDisposables obj s))"
proof -
  have "extends s (s\<lparr>disposables := (disposables s)(obj := [])\<rparr>)"
    by (rule extends_frame) simp_all
  then show ?thesis
    unfolding runDisposables_def
    using extends_forEach [of run_disposable, OF extends_run_disposable]
    by (rule extends_trans)
qed

lemma extends_exec1: "extends s (exec1 e s)"
  by (cases e)
    (simp_all add: extends_runTask extends_scheduleTask extends_throttleTask extends_debounceTask
      extends_cancelTask extends_cancelDebounce extends_fire extends_runDisposables
      extends_frame)

section \<open>The handle of a throttle\<close>

lemma tracked_add_job [simp]: "tracked (add_job j s) obj = tracked s obj"
  by (rule tracked_frame) simp_all

lemma tracked_throttle [simp]: "tracked (snd (throttle target method args s)) obj = tracked s obj"
  by (rule tracked_frame) simp_all

lemma tracked_runTask:
  assumes "well_formed s" "t \<in> set (tracked s obj)"
  shows "t \<in> set (tracked (snd (runTask obj' taskOrName timeout s)) obj)"
proof (cases "fst (runTask obj' taskOrName timeout s)")
  case (Inl e)
  with assms show ?thesis by (simp add: runTask_error_state)
next
  case (Inr t')
  then have "runTask obj' taskOrName timeout s = (Inr t', snd (runTask obj' taskOrName timeout s))"
    by (simp add: prod_eq_iff)
  from runTask_Inr [OF this] obtain task where
    s1: "snd (runTask obj' taskOrName timeout s) = timers_add (fst (getTimers_ok obj' s)) t'
            (add_job (Later (RunTaskCallback (fst (getTimers_ok obj' s)) t' task obj')
                       (if timeout = VUndefined then VInt 0 else timeout))
               (snd (getTimers_ok obj' s)))"
    by auto
  have "t \<in> set (tracked (add_job (Later (RunTaskCallback (fst (getTimers_ok obj' s)) t' task obj')
                       (if timeout = VUndefined then VInt 0 else timeout))
               (snd (getTimers_ok obj' s))) obj)"
    using assms by (simp add: tracked_add_job tracked_getTimers)
  then show ?thesis
    unfolding s1 by (rule tracked_timers_add)
qed

lemma tracked_scheduleTask:
  assumes "well_formed s" "t \<in> set (tracked s obj)"
  shows "t \<in> set (tracked (snd (scheduleTask obj' queueName taskOrName args s)) obj)"
proof (cases "fst (scheduleTask obj' queueName taskOrName args s)")
  case (Inl e)
  from scheduleTask_error_cases [OF this] assms show ?thesis
    by (auto simp: tracked_getTimers)
next
  case (Inr t')
  then have "scheduleTask obj' queueName taskOrName args s =
      (Inr t', snd (scheduleTask obj' queueName taskOrName args s))"
    by (simp add: prod_eq_iff)
  from scheduleTask_Inr [OF this] obtain task q where
    s1: "snd (scheduleTask obj' queueName taskOrName args s) = timers_add (fst (getTimers_ok obj' s)) t'
            (add_job (Scheduled q obj' (TaskWrapper (fst (getTimers_ok obj' s)) t' task obj') args)
               (snd (getTimers_ok obj' s)))"
    by auto
  have "t \<in> set (tracked
     (add_job (Scheduled q obj' (TaskWrapper (fst (getTimers_ok obj' s)) t' task obj') args)
               (snd (getTimers_ok obj' s))) obj)"
    using assms by (simp add: tracked_add_job tracked_getTimers)
  then show ?thesis
    unfolding s1 by (rule tracked_timers_add)
qed

lemma tracked_throttleTask:
  assumes "well_formed s" "t \<in> set (tracked s obj)"
  shows "t \<in> set (tracked (snd (throttleTask obj' taskName throttleArgs s)) obj)"
proof (cases "fst (throttleTask obj' taskName throttleArgs s)")
  case (Inl e)
  with assms show ?thesis by (simp add: throttleTask_error_state)
next
  case (Inr t')
  then have "throttleTask obj' taskName throttleArgs s =
      (Inr t', snd (throttleTask obj' taskName throttleArgs s))"
    by (simp add: prod_eq_iff)
  from throttleTask_Inr [OF this] obtain name where
    s1: "snd (throttleTask obj' taskName throttleArgs s) = timers_add (fst (getTimers_ok obj' s)) t'
            (snd (throttle obj' name throttleArgs (snd (getTimers_ok obj' s))))"
    by auto
  have "t \<in> set (tracked (snd (throttle obj' name throttleArgs (snd (getTimers_ok obj' s)))) obj)"
    using assms by (simp add: tracked_throttle tracked_getTimers)
  then show ?thesis
    unfolding s1 by (rule tracked_timers_add)
qed

lemma debounceTask_timers [simp]:
  "registeredTimers (snd (debounceTask obj nm debounceArgs s)) = registeredTimers s"
  "timerSets (snd (debounceTask obj nm debounceArgs s)) = timerSets s"
proof -
  show "registeredTimers (snd (debounceTask obj nm debounceArgs s)) = registeredTimers s"
  proof (cases "fst (debounceTask obj nm debounceArgs s)")
    case (Inl e)
    then show ?thesis by (simp add: debounceTask_error_state)
  next
    case (Inr u)
    then have "debounceTask obj nm debounceArgs s = (Inr u, snd (debounceTask obj nm debounceArgs s))"
      by (simp add: prod_eq_iff)
    from debounceTask_Inr [OF this] show ?thesis
      by (auto simp: debounced_def Let_def split: option.splits)
  qed
  show "timerSets (snd (debounceTask obj nm debounceArgs s)) = timerSets s"
  proof (cases "fst (debounceTask obj nm debounceArgs s)")
    case (Inl e)
    then show ?thesis by (simp add: debounceTask_error_state)
  next
    case (Inr u)
    then have "debounceTask obj nm debounceArgs s = (Inr u, snd (debounceTask obj nm debounceArgs s))"
      by (simp add: prod_eq_iff)
    from debounceTask_Inr [OF this] show ?thesis
      by (auto simp: debounced_def Let_def split: option.splits)
  qed
qed

lemma cancelDebounce_timers [simp]:
  "registeredTimers (snd (cancelDebounce obj name s)) = registeredTimers s"
  "timerSets (snd (cancelDebounce obj name s)) = timerSets s"
  by (simp_all add: cancelDebounce_def split: option.splits)

lemma tracked_fire:
  assumes wf: "well_formed s" and t: "t \<in> set (tracked s obj)" and w: "window_only t s"
  shows "t \<in> set (tracked (snd (fire t' s)) obj)"
proof (cases "map_of (pending s) t'")
  case None
  with t show ?thesis by (simp add: fire_def)
next
  case (Some j)
  then have in_p: "(t', j) \<in> set (pending s)"
    by (rule map_of_SomeD)
  from jobs_ok_job [OF wf this] have ok: "job_ok s t' j" .
  have c: "t \<in> set (tracked (cancel t' s) obj)"
    using t by (simp add: tracked_frame [of "cancel t' s" s])
  have ne: "t' \<noteq> t" if "\<And>target f. j \<noteq> Throttler target f"
  proof
    assume "t' = t"
    with w in_p obtain target f where "j = Throttler target f"
      unfolding window_only_def by blast
    with that show False by blast
  qed
  show ?thesis
  proof (cases j)
    case (Later cb v)
    with ok obtain r c' f' o' where cb: "cb = RunTaskCallback r c' f' o'" and c': "c' = t'"
      by (cases cb) auto
    have "t \<in> set (tracked (timers_delete r t' (cancel t' s)) obj)"
      using c ne Later by (intro tracked_timers_delete) simp_all
    then show ?thesis
      using Some Later cb c'
      by (simp add: fire_def tracked_frame [of "call f' o' [] (timers_delete r t' (cancel t' s))"
            "timers_delete r t' (cancel t' s)"])
  next
    case (Scheduled q tg cb args)
    with ok obtain r c' f' o' where cb: "cb = TaskWrapper r c' f' o'" and c': "c' = t'"
      by (cases cb) auto
    have "t \<in> set (tracked (timers_delete r t' (cancel t' s)) obj)"
      using c ne Scheduled by (intro tracked_timers_delete) simp_all
    then show ?thesis
      using Some Scheduled cb c'
      by (simp add: fire_def tracked_frame [of "call f' o' args (timers_delete r t' (cancel t' s))"
            "timers_delete r t' (cancel t' s)"])
  next
    case (Throttler tg f)
    with Some c show ?thesis
      by (simp add: fire_def)
  next
    case (Debouncer tg cb args)
    with ok obtain i r n where cb: "cb = DebouncedTask i r n tg"
      by (cases cb) auto
    have "tracked (snd (run_callback cb args (cancel t' s))) obj = tracked (cancel t' s) obj"
      by (rule tracked_frame) (simp_all add: cb Let_def split: val.splits)
    with Some Debouncer c show ?thesis
      by (simp add: fire_def)
  qed
qed

lemma tracked_exec1:
  assumes wf: "well_formed s" and t: "t \<in> set (tracked s obj)" and w: "window_only t s"
    and e: "e \<noteq> CancelTask (WithObj obj t)" "e \<noteq> RunDisposables obj"
  shows "t \<in> set (tracked (exec1 e s) obj)"
proof (cases e)
  case (RunTask o' tk v)
  with wf t show ?thesis by (simp add: tracked_runTask)
next
  case (ScheduleTask o' q tk args)
  with wf t show ?thesis by (simp add: tracked_scheduleTask)
next
  case (ThrottleTask o' tk args)
  with wf t show ?thesis by (simp add: tracked_throttleTask)
next
  case (DebounceTask o' nm args)
  with t show ?thesis
    by (simp add: tracked_frame [of "snd (debounceTask o' nm args s)" s])
next
  case (CancelTask a)
  with wf t e(1) show ?thesis by (simp add: tracked_cancelTask)
next
  case (CancelDebounce o' n)
  with t show ?thesis
    by (simp add: tracked_frame [of "snd (cancelDebounce o' n s)" s])
next
  case (Fire t')
  with wf t w show ?thesis by (simp add: tracked_fire)
next
  case (RunDisposables o')
  with wf t e(2) show ?thesis by (simp add: tracked_runDisposables)
next
  case (SetProp o' n v)
  with t show ?thesis
    by (simp add: tracked_frame [of "set_prop o' n v s" s])
next
  case (SetDestroyed o' b)
  with t show ?thesis
    by (simp add: tracked_frame [of "set_destroyed o' b s" s])
qed

lemma tracked_exec:
  assumes "well_formed s" "t \<in> set (tracked s obj)" "window_only t s"
    and "\<forall>e \<in> set evs. e \<noteq> CancelTask (WithObj obj t) \<and> e \<noteq> RunDisposables obj"
  shows "t \<in> set (tracked (exec evs s) obj)"
  using assms unfolding exec_def
proof (induction evs arbitrary: s)
  case Nil
  then show ?case by simp
next
  case (Cons e evs)
  have "well_formed (exec1 e s)"
    using Cons.prems(1) by (rule wf_exec1)
  moreover have "t \<in> set (tracked (exec1 e s) obj)"
    using Cons.prems by (intro tracked_exec1) simp_all
  moreover have "window_only t (exec1 e s)"
    using Cons.prems(3) extends_exec1 by (rule window_only_extends)
  ultimately show ?case
    using Cons.IH [of "exec1 e s"] Cons.prems(4) by simp
qed

lemma throttleTask_window:
  assumes wf: "well_formed s" and r: "throttleTask obj taskName throttleArgs s = (Inr t, s1)"
  shows "t \<in> set (tracked s1 obj) \<and> window_only t s1 \<and>
    (\<exists>target f. map_of (pending s1) t = Some (Throttler target f))"
proof -
  from throttleTask_Inr [OF r] obtain name where
    f: "typeof_function (props (objs s obj) name)" and
    t: "fst (throttle obj name throttleArgs (snd (getTimers_ok obj s))) = Inr t" and
    s1: "s1 = timers_add (fst (getTimers_ok obj s)) t
            (snd (throttle obj name throttleArgs (snd (getTimers_ok obj s))))"
    by auto
  let ?sg = "snd (getTimers_ok obj s)"
  from f obtain fn where fn: "props (objs ?sg obj) name = VFun fn"
    by (auto simp: typeof_function_def split: val.splits)
  have ids: "ids_ok s"
    using wf by (simp add: well_formed_def)
  have 1: "t \<in> set (tracked s1 obj)"
    by (simp add: s1 tracked_def getTimers_registered)
  from throttle_cases [OF fn, of throttleArgs]
  have 2: "window_only t s1 \<and> map_of (pending s1) t = Some (Throttler obj fn)"
  proof
    assume "\<exists>t' j. find (\<lambda>(t, j). j = Throttler obj fn) (pending ?sg) = Some (t', j) \<and>
      throttle obj name throttleArgs ?sg = (Inr t', ?sg)"
    with t have fd: "find (\<lambda>(t, j). j = Throttler obj fn) (pending s) = Some (t, Throttler obj fn)"
      and th: "throttle obj name throttleArgs ?sg = (Inr t, ?sg)"
      by (auto simp: find_Some_iff)
    from fd have in_p: "(t, Throttler obj fn) \<in> set (pending s)"
      by (auto simp: find_Some_iff in_set_conv_nth)
    with ids have "t < nextTimer s" and "map_of (pending s) t = Some (Throttler obj fn)"
      by (auto simp: ids_ok_def)
    moreover have "j = Throttler obj fn" if "(t, j) \<in> set (pending s)" for j
      using that in_p ids by (auto simp: ids_ok_def dest: eq_key_imp_eq_value)
    ultimately show ?thesis
      by (auto simp: s1 th window_only_def)
  next
    assume "find (\<lambda>(t, j). j = Throttler obj fn) (pending ?sg) = None \<and>
      throttle obj name throttleArgs ?sg =
        (Inr (nextTimer ?sg), call fn obj (butlast throttleArgs) (add_job (Throttler obj fn) ?sg))"
    with t have t': "t = nextTimer s"
      and th: "throttle obj name throttleArgs ?sg =
        (Inr t, call fn obj (butlast throttleArgs) (add_job (Throttler obj fn) ?sg))"
      by auto
    have "j = Throttler obj fn" if "(t, j) \<in> set (pending s) \<or> j = Throttler obj fn" for j
      using that ids t' by (auto simp: ids_ok_def)
    then show ?thesis
      using ids by (auto simp: s1 th t' window_only_def fresh_not_pending map_add_def)
  qed
  from 1 2 show ?thesis by blast
qed

text \<open>
  C10. After a successful \<^verbatim>\<open>throttleTask\<close> the returned handle is in the owner's tracked
  set, outstanding as a throttle window. The end of the window removes nothing from the
  set, and no step of a run removes the handle from it, other than
  \<^verbatim>\<open>cancelTask(obj, handle)\<close> and the owner's destruction hook: the handle stays tracked
  after any sequence of other events. \<^verbatim>\<open>cancelTask(obj, handle)\<close> removes it.
\<close>

theorem throttle_handle_stays_tracked:
  assumes "well_formed s" "throttleTask obj taskName throttleArgs s = (Inr t, s1)"
  shows "t \<in> set (tracked s1 obj) \<and>
    (\<exists>target f. map_of (pending s1) t = Some (Throttler target f)) \<and>
    tracked (snd (fire t s1)) obj = tracked s1 obj \<and>
    (\<forall>evs. (\<forall>e \<in> set evs. e \<noteq> CancelTask (WithObj obj t) \<and> e \<noteq> RunDisposables obj) \<longrightarrow>
       t \<in> set (tracked (exec evs s1) obj)) \<and>
    t \<notin> set (tracked (snd (cancelTask (WithObj obj t) s1)) obj)"
proof -
  from throttleTask_window [OF assms] obtain target f where
    1: "t \<in> set (tracked s1 obj)" and w: "window_only t s1"
    and p: "map_of (pending s1) t = Some (Throttler target f)"
    by blast
  have wf1: "well_formed s1"
    using wf_throttleTask [OF assms(1), of obj taskName throttleArgs] assms(2) by simp
  have 3: "tracked (snd (fire t s1)) obj = tracked s1 obj"
    using p by (simp add: fire_def tracked_frame [of "cancel t s1" s1])
  have 4: "\<forall>evs. (\<forall>e \<in> set evs. e \<noteq> CancelTask (WithObj obj t) \<and> e \<noteq> RunDisposables obj) \<longrightarrow>
       t \<in> set (tracked (exec evs s1) obj)"
    using tracked_exec [OF wf1 1 w] by blast
  obtain r where "registeredTimers s1 obj = Some r"
    using 1 by (cases "registeredTimers s1 obj") (simp_all add: tracked_def)
  then have 5: "t \<notin> set (tracked (snd (cancelTask (WithObj obj t) s1)) obj)"
    by (simp add: cancelTask_WithObj tracked_def getTimers_Some)
  from 1 p 3 4 5 show ?thesis by blast
qed

lemma exec_append: "exec (evs @ evs') s = exec evs' (exec evs s)"
  by (simp add: exec_def)

theorem throttle_handle_stays_tracked_witness:
  "0 \<in> set (tracked (exec [ThrottleTask 0 (VStr ''doStuff'') [VStr ''a'', VInt 5]] demo) 0) \<and>
   0 \<in> set (tracked (exec ([ThrottleTask 0 (VStr ''doStuff'') [VStr ''a'', VInt 5]] @
       [Fire 0, RunTask 0 (VStr ''run'') (VInt 0), Fire 1, CancelTask (Legacy 0),
        RunDisposables 2]) demo) 0) \<and>
   0 \<notin> set (tracked (exec ([ThrottleTask 0 (VStr ''doStuff'') [VStr ''a'', VInt 5]] @
       [CancelTask (WithObj 0 0)]) demo) 0)"
proof -
  let ?s1 = "exec [ThrottleTask 0 (VStr ''doStuff'') [VStr ''a'', VInt 5]] demo"
  have r: "throttleTask 0 (VStr ''doStuff'') [VStr ''a'', VInt 5] demo = (Inr 0, ?s1)"
    by (simp add: run_defs prod_eq_iff)
  note T = throttle_handle_stays_tracked [OF demo_wf r]
  have 1: "0 \<in> set (tracked ?s1 0)"
    using T by blast
  have "\<forall>e \<in> set [Fire 0, RunTask 0 (VStr ''run'') (VInt 0), Fire 1, CancelTask (Legacy 0),
        RunDisposables 2]. e \<noteq> CancelTask (WithObj 0 0) \<and> e \<noteq> RunDisposables 0"
    by simp
  with T have 2: "0 \<in> set (tracked (exec [Fire 0, RunTask 0 (VStr ''run'') (VInt 0), Fire 1,
      CancelTask (Legacy 0), RunDisposables 2] ?s1) 0)"
    by blast
  have 3: "0 \<notin> set (tracked (exec [CancelTask (WithObj 0 0)] ?s1) 0)"
    using T by (simp add: exec_def)
  from 1 2 3 show ?thesis
    unfolding exec_append by blast
qed

section \<open>Cancellation\<close>







lemma cancelTask_WithObj_returns:
  "registeredTimers s obj \<noteq> None \<or> \<not> isDestroyed (objs s obj) \<Longrightarrow>
   cancelTask (WithObj obj t) s =
     (Inr (), cancel t (timers_delete (fst (getTimers_ok obj s)) t (snd (getTimers_ok obj s))))"
  by (auto simp: cancelTask_WithObj)









section \<open>A burst of debounce calls\<close>

lemma debounced_fields [simp]:
  "objs (debounced obj r name task args s) = objs s"
  "registeredTimers (debounced obj r name task args s) = registeredTimers s"
  "registeredDebounces (debounced obj r name task args s) = registeredDebounces s"
  "timerSets (debounced obj r name task args s) = timerSets s"
  "nextRef (debounced obj r name task args s) = nextRef s"
  "nextFn (debounced obj r name task args s) = nextFn s"
  "disposables (debounced obj r name task args s) = disposables s"
  "queues (debounced obj r name task args s) = queues s"
  "calls (debounced obj r name task args s) = calls s"
  "debounceMaps (debounced obj r name task args s) r' =
     (if r' = r
      then AList.update name \<lparr>debouncedTask = task, cancelId = fst (debounce obj task args s)\<rparr>
             (debounceMaps s r)
      else debounceMaps s r')"
  by (simp_all add: debounced_def)

















section \<open>The destruction hook\<close>

text \<open>
  On an owner that has a timer set, the loop of the timers' disposable runs to its end:
  every \<^verbatim>\<open>cancelTask\<close> returns.
\<close>

lemma forEach_cancelTask_returns:
  assumes "registeredTimers s obj = Some r"
  shows "forEach (\<lambda>c. cancelTask (WithObj obj c)) ts s =
     (Inr (), fold (\<lambda>c s'. cancel c (timers_delete r c s')) ts s)"
  using assms
proof (induction ts arbitrary: s)
  case Nil
  then show ?case by simp
next
  case (Cons c ts)
  have "registeredTimers (cancel c (timers_delete r c s)) obj = Some r"
    using Cons.prems by simp
  from Cons.IH [OF this] Cons.prems show ?case
    by (simp add: cancelTask_WithObj_returns getTimers_Some)
qed

lemma fold_cancelTask_pending:
  "pending (fold (\<lambda>c s'. cancel c (timers_delete r c s')) ts s) =
     filter (\<lambda>(t', _). t' \<notin> set ts) (pending s)"
proof (induction ts arbitrary: s)
  case (Cons t ts)
  show ?case
    by (simp add: Cons case_prod_unfold conj_commute)
qed simp

lemma fold_cancelTask_timerSets:
  "timerSets (fold (\<lambda>c s'. cancel c (timers_delete r c s')) ts s) r' =
     (if r' = r then filter (\<lambda>t. t \<notin> set ts) (timerSets s r) else timerSets s r')"
proof (induction ts arbitrary: s)
  case (Cons t ts)
  show ?case
    by (auto simp: Cons removeAll_filter_not_eq intro!: filter_cong)
qed simp

lemma fold_cancel_pending:
  "pending (fold (\<lambda>(_, p). cancel (cancelId p)) ps s) =
     filter (\<lambda>(t', _). t' \<notin> cancelId ` snd ` set ps) (pending s)"
proof (induction ps arbitrary: s)
  case (Cons p ps)
  obtain n e where p: "p = (n, e)"
    by (cases p)
  show ?case
    by (auto simp: Cons p intro!: filter_cong)
qed simp

lemma not_pending_filter:
  "P t \<Longrightarrow> map_of (filter (\<lambda>(t', _). \<not> P t') ps) t = None"
  by (auto simp: map_of_eq_None_iff)

text \<open>
  The timers' disposable, on an owner that has a timer set: it returns, every handle of
  the set has no job afterwards, and the set is empty. The debounces' disposable: the
  handle of every entry has no job afterwards; the map itself is left as it is.
\<close>

lemma timers_sweep:
  assumes "registeredTimers s obj = Some r"
  shows "fst (getTimersDisposable obj timers s) = Inr () \<and>
   timerSets (snd (getTimersDisposable obj timers s)) timers = [] \<and>
   (\<forall>t \<in> set (timerSets s timers).
      map_of (pending (snd (getTimersDisposable obj timers s))) t = None)"
  by (simp add: getTimersDisposable_def forEach_cancelTask_returns [OF assms]
      fold_cancelTask_pending not_pending_filter [where P = "\<lambda>t. t \<in> set (timerSets s timers)"])

lemma debounces_sweep:
  "debounceMaps (getDebouncesDisposable debounces s) = debounceMaps s \<and>
   (\<forall>(name, p) \<in> set (debounceMaps s debounces).
      map_of (pending (getDebouncesDisposable debounces s)) (cancelId p) = None)"
proof -
  have "map_of (pending (getDebouncesDisposable debounces s)) (cancelId p) = None"
    if "(name, p) \<in> set (debounceMaps s debounces)" for name p
  proof -
    from that have ne: "debounceMaps s debounces \<noteq> []"
      by auto
    from that have "cancelId p \<in> cancelId ` snd ` set (debounceMaps s debounces)"
      by force
    then show ?thesis
      using ne
      by (simp add: getDebouncesDisposable_def fold_cancel_pending
          not_pending_filter [where P = "\<lambda>t. t \<in> cancelId ` snd ` set (debounceMaps s debounces)"])
  qed
  then show ?thesis
    by auto
qed

text \<open>A handle with no job fires nothing, and a handle once issued is not issued again.\<close>

lemma fire_not_pending: "map_of (pending s) t = None \<Longrightarrow> fire t s = (Inr (), s)"
  by (simp add: fire_def)

lemma extends_exec: "extends s (exec evs s)"
  unfolding exec_def
proof (induction evs arbitrary: s)
  case (Cons e evs)
  show ?case
    using extends_exec1 [of s e] Cons [of "exec1 e s"] by (auto intro: extends_trans)
qed simp

lemma canceled_stays_canceled:
  assumes "t < nextTimer s" "map_of (pending s) t = None"
  shows "map_of (pending (exec evs s)) t = None"
proof (cases "map_of (pending (exec evs s)) t")
  case (Some j)
  then have "(t, j) \<in> set (pending (exec evs s))"
    by (rule map_of_SomeD)
  from extendsD [OF extends_exec this]
  have "(\<exists>j'. (t, j') \<in> set (pending s)) \<or> nextTimer s \<le> t"
    by blast
  moreover have "(t, j') \<notin> set (pending s)" for j'
    using assms(2) by (force simp: map_of_eq_None_iff)
  ultimately show ?thesis
    using assms(1) by simp
qed simp

text \<open>
  C2 fails on the debounce map. \<^verbatim>\<open>debounceTask(obj, 'doStuff', 5)\<close>, then the owner's
  destruction hook: the pending debounce is canceled (the run loop has no job left), but
  \<^verbatim>\<open>getDebouncesDisposable\<close> has no \<^verbatim>\<open>debounces.clear()\<close>, so the entry is still in the
  owner's map. The timers' hook, after \<^verbatim>\<open>runTask(obj, 'run', 0)\<close>, does empty the set.
\<close>

theorem debounce_map_survives_destruction:
  "pendingDebouncesOf
     (exec [DebounceTask 0 (VStr ''doStuff'') [VInt 5], RunDisposables 0] demo) 0 =
     [(''doStuff'', \<lparr>debouncedTask = DebouncedTask 0 0 ''doStuff'' 0, cancelId = 0\<rparr>)] \<and>
   pending (exec [DebounceTask 0 (VStr ''doStuff'') [VInt 5], RunDisposables 0] demo) = [] \<and>
   tracked (exec [RunTask 0 (VStr ''run'') (VInt 0)] demo) 0 = [0] \<and>
   tracked (exec [RunTask 0 (VStr ''run'') (VInt 0), RunDisposables 0] demo) 0 = [] \<and>
   pending (exec [RunTask 0 (VStr ''run'') (VInt 0), RunDisposables 0] demo) = []"
  by (simp add: run_defs)

section \<open>The repository's tests, replayed\<close>

text \<open>
  Scenarios of the tests of the run-task module, on the model: three throttled calls
  run the method once, with the arguments of the first; the arguments before the wait
  reach the method; a function as task name, a missing method and a wait that is not a
  number are refused; a task canceled through the one-argument \<^verbatim>\<open>cancelTask\<close> does
  not run; a queued task receives its arguments.
\<close>

lemma test_throttleTask_throttles:
  "calls (exec [ThrottleTask 0 (VStr ''doStuff'') [VStr ''a'', VInt 5],
                ThrottleTask 0 (VStr ''doStuff'') [VStr ''b'', VInt 5],
                ThrottleTask 0 (VStr ''doStuff'') [VStr ''c'', VInt 5]] demo)
     = [(0, 0, [VStr ''a''])]"
  by (simp add: run_defs)

lemma test_throttleTask_passes_arguments:
  "calls (exec [ThrottleTask 0 (VStr ''doStuff'') [VStr ''hello'', VStr ''world'', VInt 5]] demo)
     = [(0, 0, [VStr ''hello'', VStr ''world''])]"
  by (simp add: run_defs)

lemma test_throttleTask_assertions:
  "fst (throttleTask 0 (VFun 0) [VInt 5] demo) = Inl InvalidTaskError"
  "fst (throttleTask 0 (VStr ''missing'') [VInt 5] demo) = Inl InvalidTaskError"
  "fst (throttleTask 0 (VStr ''doStuff'') [VStr ''bad''] demo) = Inl InvalidDelayError"
  by (simp_all add: run_defs)

lemma test_runTask_can_be_canceled:
  "calls (exec [RunTask 0 (VFun 7) (VInt 5), CancelTask (Legacy 0), Fire 0] demo) = []"
  by (simp add: run_defs)

lemma test_scheduleTask_named_function:
  "calls (exec [ScheduleTask 0 (VStr ''actions'') (VStr ''run'') [VStr ''foo'']] demo) = []"
  "calls (exec [ScheduleTask 0 (VStr ''actions'') (VStr ''run'') [VStr ''foo''], Fire 0] demo)
     = [(1, 0, [VStr ''foo''])]"
  by (simp_all add: run_defs)

end
